theory Spec2Isabelle
  imports Main "HOL-Library.Sublist"
begin

text \<open>
  The action compares the file \<^verbatim>\<open>.env.vault\<close> of a pull request with its base, reads from
  the diff which stages changed and between which versions, asks \<^verbatim>\<open>dotenv-vault\<close> for the
  versions of each changed stage and writes one comment. This theory models the functions
  \<^verbatim>\<open>getAllVersions\<close>, \<^verbatim>\<open>getChangedStageVersions\<close> and \<^verbatim>\<open>generateCommentBody\<close> of the action,
  with the standard outputs of the two external commands and the limit of the engine on
  the length of an array as inputs. (The earlier
  \<^verbatim>\<open>src/main.ts\<close>, which looks for \<^verbatim>\<open>+DOTENV_VAULT_<STAGE>\<close> only and prints the latest
  version, is not the subject of the properties below.)
\<close>

section \<open>JavaScript numbers, as far as the action uses them\<close>

text \<open>
  Every number of the action is a Number (an IEEE double) that is an integer, an infinity or
  NaN: the results of \<^verbatim>\<open>parseInt\<close> on digits, of \<^verbatim>\<open>Math.min\<close> and \<^verbatim>\<open>Math.max\<close>, and
  differences and sums of those. \<open>Fin n\<close> is the double whose value is the integer \<open>n\<close>.
\<close>

datatype jsnum = NaN | NInf | Fin int | PInf

datatype error = RangeError | EngineLimit | ExecError

function bit_length :: "int \<Rightarrow> nat" where
  "bit_length n = (if n \<le> 0 then 0 else Suc (bit_length (n div 2)))"
  by pat_completeness auto
termination
  by (relation "measure nat") auto

declare bit_length.simps [simp del]

text \<open>
  Rounding of a non-negative integer to the nearest integer with a 53-bit significand, ties
  to the even significand: below \<open>2 ^ 53\<close> every integer is a double.
\<close>

definition round_ties_even :: "int \<Rightarrow> int" where
  "round_ties_even n =
     (if n < 2 ^ 53 then n
      else let e = bit_length n - 53; q = n div 2 ^ e; r = n mod 2 ^ e; h = 2 ^ (e - 1)
           in (if h < r \<or> (r = h \<and> odd q) then q + 1 else q) * 2 ^ e)"

text \<open>The Number value of a mathematical integer: what rounds to \<open>2 ^ 1024\<close> is infinite.\<close>

definition number_value :: "int \<Rightarrow> jsnum" where
  "number_value n =
     (if n < 0
      then (let v = round_ties_even (- n) in if 2 ^ 1024 \<le> v then NInf else Fin (- v))
      else (let v = round_ties_even n in if 2 ^ 1024 \<le> v then PInf else Fin v))"

fun js_sub :: "jsnum \<Rightarrow> jsnum \<Rightarrow> jsnum" where
  "js_sub NaN _ = NaN"
| "js_sub _ NaN = NaN"
| "js_sub PInf PInf = NaN"
| "js_sub NInf NInf = NaN"
| "js_sub PInf _ = PInf"
| "js_sub NInf _ = NInf"
| "js_sub (Fin a) PInf = NInf"
| "js_sub (Fin a) NInf = PInf"
| "js_sub (Fin a) (Fin b) = number_value (a - b)"

fun js_add :: "jsnum \<Rightarrow> jsnum \<Rightarrow> jsnum" where
  "js_add NaN _ = NaN"
| "js_add _ NaN = NaN"
| "js_add PInf NInf = NaN"
| "js_add NInf PInf = NaN"
| "js_add PInf _ = PInf"
| "js_add NInf _ = NInf"
| "js_add (Fin a) PInf = PInf"
| "js_add (Fin a) NInf = NInf"
| "js_add (Fin a) (Fin b) = number_value (a + b)"

text \<open>The comparison \<^verbatim>\<open><\<close> of two Numbers: false as soon as one is NaN.\<close>

fun js_lt :: "jsnum \<Rightarrow> jsnum \<Rightarrow> bool" where
  "js_lt NaN _ = False"
| "js_lt _ NaN = False"
| "js_lt _ NInf = False"
| "js_lt NInf _ = True"
| "js_lt PInf _ = False"
| "js_lt (Fin a) PInf = True"
| "js_lt (Fin a) (Fin b) = (a < b)"

definition js_ge :: "jsnum \<Rightarrow> jsnum \<Rightarrow> bool" where
  "js_ge x y = (x = y \<and> x \<noteq> NaN \<or> js_lt y x)"

text \<open>
  \<^verbatim>\<open>Math.min(...xs)\<close> and \<^verbatim>\<open>Math.max(...xs)\<close>: with no argument the results are
  \<^verbatim>\<open>Infinity\<close> and \<^verbatim>\<open>-Infinity\<close>; a NaN argument makes the result NaN. The arguments
  are the versions read from one diff, and \<^verbatim>\<open>exec\<close> rejects an output above its buffer
  (1 MiB unless set otherwise, and the action does not set it): a diff holds fewer than
  50000 markers, fewer arguments than an engine refuses in one call.
\<close>

definition min2 :: "jsnum \<Rightarrow> jsnum \<Rightarrow> jsnum" where
  "min2 x y = (if x = NaN \<or> y = NaN then NaN else if js_lt y x then y else x)"

definition max2 :: "jsnum \<Rightarrow> jsnum \<Rightarrow> jsnum" where
  "max2 x y = (if x = NaN \<or> y = NaN then NaN else if js_lt x y then y else x)"

definition Math_min :: "jsnum list \<Rightarrow> jsnum" where
  "Math_min xs = foldl min2 PInf xs"

definition Math_max :: "jsnum list \<Rightarrow> jsnum" where
  "Math_max xs = foldl max2 NInf xs"

text \<open>
  \<^verbatim>\<open>Array.from({ length: len }, (_, i) => f(i))\<close>: the length goes through ToLength (NaN
  and everything below 1 become 0, the rest is cut at \<open>2 ^ 53 - 1\<close>), and the array
  constructor throws a RangeError for a length above \<open>2 ^ 32 - 1\<close>. Below that, the engine
  that runs the action sets its own limit, which the source does not fix: \<open>cap\<close> is the
  greatest length of an array that the engine builds (the empty array is always built). For
  a longer one the call does not return (\<open>EngineLimit\<close>): the engine throws
  \<^verbatim>\<open>RangeError: Invalid array length\<close> while it fills the array, or the process aborts
  for want of memory. On Node this limit is of the order of \<open>2 ^ 27\<close> elements.
\<close>

fun ToLength :: "jsnum \<Rightarrow> int" where
  "ToLength NaN = 0"
| "ToLength NInf = 0"
| "ToLength PInf = 2 ^ 53 - 1"
| "ToLength (Fin n) = (if n \<le> 0 then 0 else min n (2 ^ 53 - 1))"

definition Array_from :: "int \<Rightarrow> jsnum \<Rightarrow> (jsnum \<Rightarrow> jsnum) \<Rightarrow> error + jsnum list" where
  "Array_from cap len f =
     (let n = ToLength len
      in if 2 ^ 32 - 1 < n then Inl RangeError
         else if 0 < n \<and> cap < n then Inl EngineLimit
         else Inr (map (\<lambda>i. f (Fin (int i))) [0..<nat n]))"

section \<open>Strings\<close>

text \<open>
  A text is the list of its code units; the literals the action compares with are ASCII.
  \<open>is_space\<close> is the class \<^verbatim>\<open>\s\<close> (and what \<^verbatim>\<open>trim\<close> and \<^verbatim>\<open>parseInt\<close> strip) among
  the code units below 256: tab, line feed, vertical tab, form feed, carriage return,
  space and no-break space. \<open>is_digit\<close> is \<^verbatim>\<open>\d\<close>.
\<close>

definition is_space :: "char \<Rightarrow> bool" where
  "is_space c = (c \<in> set [CHR 0x09, CHR 0x0A, CHR 0x0B, CHR 0x0C, CHR 0x0D, CHR '' '', CHR 0xA0])"

definition is_digit :: "char \<Rightarrow> bool" where
  "is_digit c = (c \<in> set ''0123456789'')"

definition digit_value :: "char \<Rightarrow> int" where
  "digit_value c = int (of_char c) - 48"

definition digits_value :: "string \<Rightarrow> int" where
  "digits_value ds = foldl (\<lambda>acc c. 10 * acc + digit_value c) 0 ds"

text \<open>
  \<^verbatim>\<open>parseInt(s, 10)\<close>: leading white space is skipped, then an optional sign, then the
  longest run of decimal digits is read; no digit gives NaN. On a string of digits only (what
  the group \<^verbatim>\<open>(\d+)\<close> captures) \<^verbatim>\<open>parseInt(s)\<close> without a radix reads the same number. The
  result is the Number nearest to the integer written (an engine may also read the digits
  behind the twentieth as zeros, which this model does not do).
\<close>

definition parseInt :: "string \<Rightarrow> jsnum" where
  "parseInt s =
     (let t = dropWhile is_space s;
          sgn = (case t of [] \<Rightarrow> 1 | c # _ \<Rightarrow> if c = CHR ''-'' then - 1 else (1::int));
          u = (case t of [] \<Rightarrow> [] | c # r \<Rightarrow> if c = CHR ''-'' \<or> c = CHR ''+'' then r else t);
          ds = takeWhile is_digit u
      in if ds = [] then NaN else number_value (sgn * digits_value ds))"

text \<open>\<^verbatim>\<open>s.includes(sub)\<close>: \<open>sub\<close> starts at some position of \<open>s\<close>.\<close>

fun str_includes :: "string \<Rightarrow> string \<Rightarrow> bool" where
  "str_includes [] sub = (sub = [])"
| "str_includes (c # s) sub = (prefix sub (c # s) \<or> str_includes s sub)"

text \<open>\<^verbatim>\<open>s.split(c)\<close> for a separator of one code unit, and \<^verbatim>\<open>xs.join(sep)\<close>.\<close>

fun split_on :: "char \<Rightarrow> string \<Rightarrow> string list" where
  "split_on c [] = [[]]"
| "split_on c (x # xs) =
     (if x = c then [] # split_on c xs
      else (case split_on c xs of [] \<Rightarrow> [[x]] | t # ts \<Rightarrow> (x # t) # ts))"

fun join :: "string \<Rightarrow> string list \<Rightarrow> string" where
  "join sep [] = []"
| "join sep [x] = x"
| "join sep (x # y # ys) = x @ sep @ join sep (y # ys)"

definition trim :: "string \<Rightarrow> string" where
  "trim s = rev (dropWhile is_space (rev (dropWhile is_space s)))"

text \<open>
  \<^verbatim>\<open>s.split(/\s{2,}/)\<close>: the text is cut at every maximal run of two or more white-space
  code units (the quantifier is greedy, and the search goes on behind the run); a single
  white-space code unit stays inside its piece.
\<close>

function split_spaces :: "string \<Rightarrow> string list" where
  "split_spaces s =
     (if s = [] then [[]]
      else if 2 \<le> length (takeWhile is_space s) then [] # split_spaces (dropWhile is_space s)
      else (case split_spaces (tl s) of [] \<Rightarrow> [[hd s]] | t # ts \<Rightarrow> (hd s # t) # ts))"
  by pat_completeness auto
termination
proof (relation "measure length")
  show "wf (measure length)" by simp
next
  fix s :: string
  assume "s \<noteq> []" and "2 \<le> length (takeWhile is_space s)"
  then have "0 < length (takeWhile is_space s)" by linarith
  moreover have "length (takeWhile is_space s) + length (dropWhile is_space s) = length s"
    by (metis length_append takeWhile_dropWhile_id)
  ultimately have "length (dropWhile is_space s) < length s" by linarith
  then show "(dropWhile is_space s, s) \<in> measure length" by simp
next
  fix s :: string
  assume "s \<noteq> []"
  then show "(tl s, s) \<in> measure length" by (cases s) simp_all
qed

declare split_spaces.simps [simp del]

text \<open>\<^verbatim>\<open>s.replace("v", "")\<close>: the first \<^verbatim>\<open>v\<close> of the text, wherever it stands, is removed.\<close>

fun replace_v :: "string \<Rightarrow> string" where
  "replace_v [] = []"
| "replace_v (c # cs) = (if c = CHR ''v'' then cs else c # replace_v cs)"

section \<open>The listing of versions: \<^verbatim>\<open>getAllVersions\<close>\<close>

text \<open>
  A row of the listing. \<^verbatim>\<open>version\<close> and \<^verbatim>\<open>user\<close> come out of expressions that can be
  \<^verbatim>\<open>undefined\<close> (\<open>None\<close>); in a template and in \<^verbatim>\<open>parseInt\<close> an undefined value reads as
  the text \<^verbatim>\<open>undefined\<close>. \<open>fields_col\<close> is the field \<^verbatim>\<open>fields\<close>.
\<close>

record VaultEnvVersion =
  version :: "string option"
  fields_col :: string
  user :: "string option"
  time :: string

definition js_string :: "string option \<Rightarrow> string" where
  "js_string v = (case v of None \<Rightarrow> ''undefined'' | Some s \<Rightarrow> s)"

text \<open>\<^verbatim>\<open>!!v\<close> on a string or \<^verbatim>\<open>undefined\<close>: only a non-empty string is truthy.\<close>

definition truthy :: "string option \<Rightarrow> bool" where
  "truthy v = (case v of None \<Rightarrow> False | Some s \<Rightarrow> s \<noteq> [])"

text \<open>
  The callback of \<^verbatim>\<open>map\<close> in \<^verbatim>\<open>getAllVersions\<close>: \<^verbatim>\<open>pop\<close> takes the last piece off
  (user and time), \<^verbatim>\<open>splice(0, 1)\<close> takes the first of the others off (the version), and
  \<^verbatim>\<open>fields\<close> is the first piece left, or \<^verbatim>\<open>N/A\<close>.
\<close>

definition parse_line :: "string \<Rightarrow> VaultEnvVersion" where
  "parse_line line =
     (let parts = split_spaces (trim line);
          userTime = (case rev parts of [] \<Rightarrow> None | u # _ \<Rightarrow> Some u);
          parts1 = butlast parts;
          ut = (case userTime of None \<Rightarrow> [] | Some u \<Rightarrow> split_on CHR '' '' u);
          usr = (case ut of [] \<Rightarrow> None | u # _ \<Rightarrow> Some u);
          timeParts = tl ut;
          tm = join '' '' timeParts;
          ver = (case parts1 of [] \<Rightarrow> None | p # _ \<Rightarrow> Some (replace_v p));
          parts2 = tl parts1;
          flds = (case parts2 of [] \<Rightarrow> ''N/A'' | p # _ \<Rightarrow> p)
      in \<lparr>version = ver, fields_col = flds, user = usr, time = tm\<rparr>)"

text \<open>The text of a listing \<^verbatim>\<open>stdout\<close> to rows: the body of the \<^verbatim>\<open>try\<close> block.\<close>

definition parse_listing :: "string \<Rightarrow> VaultEnvVersion list" where
  "parse_listing stdout =
     filter (\<lambda>v. truthy (version v))
       (map parse_line (filter (\<lambda>line. trim line \<noteq> []) (drop 2 (split_on CHR 0x0A stdout))))"

text \<open>
  \<open>exec stg\<close> is the outcome of the command \<^verbatim>\<open>npx dotenv-vault versions <stage>\<close>: its
  standard output, or the error it is rejected with, which the \<^verbatim>\<open>catch\<close> turns into no row.
\<close>

definition getAllVersions :: "(string \<Rightarrow> error + string) \<Rightarrow> string \<Rightarrow> VaultEnvVersion list" where
  "getAllVersions exec stg = (case exec stg of Inl e \<Rightarrow> [] | Inr stdout \<Rightarrow> parse_listing stdout)"

section \<open>The ranges of the diff: \<^verbatim>\<open>getChangedStageVersions\<close>\<close>

definition STAGES :: "string list" where
  "STAGES = [''CI'', ''DEVELOPMENT'', ''STAGING'', ''PRODUCTION'']"

text \<open>
  The loop \<^verbatim>\<open>while ((match = regex.exec(diffOutput)) !== null)\<close> of a global expression
  \<^verbatim>\<open><pat>(\d+)\<close> with a literal \<open>pat\<close>: the leftmost position where \<open>pat\<close> and at least one
  digit stand is taken, all the digits behind \<open>pat\<close> are captured and parsed, and the search
  goes on behind them.
\<close>

function scan_versions :: "string \<Rightarrow> string \<Rightarrow> jsnum list" where
  "scan_versions pat s =
     (if s = [] then []
      else if prefix pat s \<and> takeWhile is_digit (drop (length pat) s) \<noteq> []
      then parseInt (takeWhile is_digit (drop (length pat) s))
             # scan_versions pat (dropWhile is_digit (drop (length pat) s))
      else scan_versions pat (tl s))"
  by pat_completeness auto
termination
proof (relation "measure (\<lambda>(pat, s). length s)")
  show "wf (measure (\<lambda>(pat, s). length s))" by simp
next
  fix pat s :: string
  assume "s \<noteq> []"
    and "prefix pat s \<and> takeWhile is_digit (drop (length pat) s) \<noteq> []"
  then have d: "takeWhile is_digit (drop (length pat) s) \<noteq> []" by simp
  have "length (takeWhile is_digit (drop (length pat) s))
          + length (dropWhile is_digit (drop (length pat) s)) = length (drop (length pat) s)"
    by (metis length_append takeWhile_dropWhile_id)
  with d have "length (dropWhile is_digit (drop (length pat) s)) < length (drop (length pat) s)"
    by (cases "takeWhile is_digit (drop (length pat) s)") simp_all
  then have "length (dropWhile is_digit (drop (length pat) s)) < length s" by simp
  then show "((pat, dropWhile is_digit (drop (length pat) s)), (pat, s))
      \<in> measure (\<lambda>(pat, s). length s)" by simp
next
  fix pat s :: string
  assume "s \<noteq> []"
  then show "((pat, tl s), (pat, s)) \<in> measure (\<lambda>(pat, s). length s)" by (cases s) simp_all
qed

declare scan_versions.simps [simp del]

definition addedVersions :: "string \<Rightarrow> string \<Rightarrow> jsnum list" where
  "addedVersions diffOutput stg = scan_versions (''+DOTENV_VAULT_'' @ stg @ ''_VERSION='') diffOutput"

definition removedVersions :: "string \<Rightarrow> string \<Rightarrow> jsnum list" where
  "removedVersions diffOutput stg = scan_versions (''-DOTENV_VAULT_'' @ stg @ ''_VERSION='') diffOutput"

definition changedStages :: "string \<Rightarrow> string list" where
  "changedStages diffOutput =
     filter (\<lambda>stg. str_includes diffOutput (''+DOTENV_VAULT_'' @ stg)
                 \<or> str_includes diffOutput (''-DOTENV_VAULT_'' @ stg)) STAGES"

record StageVersions =
  stage :: string
  versions :: "jsnum list"

text \<open>
  The callback of \<^verbatim>\<open>changedStages.map\<close>: the array of
  \<^verbatim>\<open>maxAddedVersion - minRemovedVersion\<close> numbers \<^verbatim>\<open>minRemovedVersion + i + 1\<close>.
\<close>

definition stageVersions :: "int \<Rightarrow> string \<Rightarrow> string \<Rightarrow> error + StageVersions" where
  "stageVersions cap diffOutput stg =
     (let minRemovedVersion = Math_min (removedVersions diffOutput stg);
          maxAddedVersion = Math_max (addedVersions diffOutput stg)
      in case Array_from cap (js_sub maxAddedVersion minRemovedVersion)
                (\<lambda>i. js_add (js_add minRemovedVersion i) (Fin 1)) of
           Inl e \<Rightarrow> Inl e
         | Inr vs \<Rightarrow> Inr \<lparr>stage = stg, versions = vs\<rparr>)"

text \<open>\<^verbatim>\<open>xs.map(f)\<close> with a callback that can throw: the first exception ends the call.\<close>

fun map_throwing :: "('a \<Rightarrow> error + 'b) \<Rightarrow> 'a list \<Rightarrow> error + 'b list" where
  "map_throwing f [] = Inr []"
| "map_throwing f (x # xs) =
     (case f x of
        Inl e \<Rightarrow> Inl e
      | Inr y \<Rightarrow> (case map_throwing f xs of Inl e \<Rightarrow> Inl e | Inr ys \<Rightarrow> Inr (y # ys)))"

definition getChangedStageVersions :: "int \<Rightarrow> string \<Rightarrow> error + StageVersions list" where
  "getChangedStageVersions cap diffOutput =
     (if changedStages diffOutput = [] then Inr []
      else map_throwing (stageVersions cap diffOutput) (changedStages diffOutput))"

section \<open>The comment: \<^verbatim>\<open>generateCommentBody\<close>\<close>

definition version_line :: "string \<Rightarrow> VaultEnvVersion \<Rightarrow> string" where
  "version_line stg cv = stg @ '' ('' @ js_string (version cv) @ ''): `'' @ fields_col cv @ ''`''"

text \<open>The callback of \<^verbatim>\<open>STAGES.map\<close>: the text of one stage.\<close>

definition versionOutput ::
    "(string \<Rightarrow> error + string) \<Rightarrow> StageVersions list \<Rightarrow> string \<Rightarrow> string" where
  "versionOutput exec changedStageVersions stg =
     (case find (\<lambda>changedStage. stage changedStage = stg) changedStageVersions of
        None \<Rightarrow> stg @ '': No changes''
      | Some changedVersion \<Rightarrow>
          (let changedVersions =
                 filter (\<lambda>v. parseInt (js_string (version v)) \<in> set (versions changedVersion))
                   (getAllVersions exec stg)
           in if changedVersions = [] then stg @ '': No versions changed''
              else join [CHR 0x0A] (map (version_line stg) changedVersions)))"

definition versionOutputs :: "(string \<Rightarrow> error + string) \<Rightarrow> StageVersions list \<Rightarrow> string list" where
  "versionOutputs exec changedStageVersions = map (versionOutput exec changedStageVersions) STAGES"

text \<open>
  \<open>diffOutput\<close> is the standard output of \<^verbatim>\<open>git diff origin/<base> -- .env.vault\<close>, and
  \<open>cap\<close> the limit of the engine on the length of an array. An exception of
  \<^verbatim>\<open>getChangedStageVersions\<close> is not caught here: it leaves the function.
\<close>

definition generateCommentBody ::
    "int \<Rightarrow> (string \<Rightarrow> error + string) \<Rightarrow> string \<Rightarrow> error + string" where
  "generateCommentBody cap exec diffOutput =
     (case getChangedStageVersions cap diffOutput of
        Inl e \<Rightarrow> Inl e
      | Inr changedStageVersions \<Rightarrow>
          Inr (''Dotenv-vault Diff'' @ [CHR 0x0A]
                 @ join [CHR 0x0A] (versionOutputs exec changedStageVersions)))"

section \<open>Auxiliary notions for the properties\<close>

text \<open>The Numbers that \<^verbatim>\<open>parseInt\<close> can return on a run of digits: not negative, not NaN.\<close>

fun nonneg_num :: "jsnum \<Rightarrow> bool" where
  "nonneg_num (Fin v) = (0 \<le> v)"
| "nonneg_num PInf = True"
| "nonneg_num _ = False"

text \<open>
  The version markers in the words of the specification, to compare the loop of
  \<^verbatim>\<open>exec\<close> with: every position of the text is looked at, and where \<open>pat\<close> stands with a
  digit behind it, the integer written by all the digits behind \<open>pat\<close> is collected.
\<close>

fun marker_values :: "string \<Rightarrow> string \<Rightarrow> int list" where
  "marker_values pat [] = []"
| "marker_values pat (c # cs) =
     (if prefix pat (c # cs) \<and> takeWhile is_digit (drop (length pat) (c # cs)) \<noteq> []
      then [digits_value (takeWhile is_digit (drop (length pat) (c # cs)))] else [])
     @ marker_values pat cs"

definition added_markers :: "string \<Rightarrow> string \<Rightarrow> int list" where
  "added_markers diffOutput stg = marker_values (''+DOTENV_VAULT_'' @ stg @ ''_VERSION='') diffOutput"

definition removed_markers :: "string \<Rightarrow> string \<Rightarrow> int list" where
  "removed_markers diffOutput stg = marker_values (''-DOTENV_VAULT_'' @ stg @ ''_VERSION='') diffOutput"

section \<open>Numbers read from digits\<close>



lemma round_ties_even_nonneg: "0 \<le> n \<Longrightarrow> 0 \<le> round_ties_even n"
  by (simp add: round_ties_even_def Let_def pos_imp_zdiv_nonneg_iff)

lemma round_ties_even_small: "n < 2 ^ 53 \<Longrightarrow> round_ties_even n = n"
  by (simp add: round_ties_even_def)

lemma number_value_exact: "\<bar>n\<bar> < 2 ^ 53 \<Longrightarrow> number_value n = Fin n"
proof -
  assume a: "\<bar>n\<bar> < 2 ^ 53"
  have big: "(2::int) ^ 53 \<le> 2 ^ 1024" by (rule power_increasing) simp_all
  show ?thesis
  proof (cases "n < 0")
    case True
    with a have "- n < 2 ^ 53" by simp
    then have "round_ties_even (- n) = - n" by (rule round_ties_even_small)
    moreover have "\<not> 2 ^ 1024 \<le> - n" using \<open>- n < 2 ^ 53\<close> big by linarith
    ultimately show ?thesis using True by (simp add: number_value_def Let_def del: power_numeral)
  next
    case False
    with a have "n < 2 ^ 53" by simp
    then have "round_ties_even n = n" by (rule round_ties_even_small)
    moreover have "\<not> 2 ^ 1024 \<le> n" using \<open>n < 2 ^ 53\<close> big by linarith
    ultimately show ?thesis using False by (simp add: number_value_def Let_def)
  qed
qed


lemma number_value_nonneg: "0 \<le> n \<Longrightarrow> nonneg_num (number_value n)"
  using round_ties_even_nonneg [of n] by (simp add: number_value_def Let_def)

lemma ToLength_number_value_nonpos: "n \<le> 0 \<Longrightarrow> ToLength (number_value n) = 0"
proof (cases "n = 0")
  case True
  then show ?thesis by (simp add: number_value_exact)
next
  case False
  assume "n \<le> 0"
  with False have "n < 0" by simp
  then show ?thesis
    using round_ties_even_nonneg [of "- n"] by (simp add: number_value_def Let_def)
qed

lemma digit_value_nonneg: "is_digit c \<Longrightarrow> 0 \<le> digit_value c"
  by (auto simp: is_digit_def digit_value_def)

lemma foldl_digits_nonneg:
  "0 \<le> a \<Longrightarrow> \<forall>c\<in>set ds. is_digit c \<Longrightarrow> 0 \<le> foldl (\<lambda>acc c. 10 * acc + digit_value c) a ds"
  by (induction ds arbitrary: a) (simp_all add: digit_value_nonneg)

lemma digits_value_nonneg: "\<forall>c\<in>set ds. is_digit c \<Longrightarrow> 0 \<le> digits_value ds"
  by (simp add: digits_value_def foldl_digits_nonneg)

lemma is_digit_not_space: "is_digit c \<Longrightarrow> \<not> is_space c"
  by (auto simp: is_digit_def is_space_def)

lemma parseInt_digits:
  assumes "ds \<noteq> []" and "\<forall>c\<in>set ds. is_digit c"
  shows "parseInt ds = number_value (digits_value ds)"
proof -
  obtain c r where ds: "ds = c # r" using assms(1) by (cases ds) auto
  have c: "is_digit c" using assms(2) ds by simp
  then have "\<not> is_space c" and "c \<noteq> CHR ''-''" and "c \<noteq> CHR ''+''"
    by (auto simp: is_digit_def is_space_def)
  moreover have "takeWhile is_digit ds = ds" using assms(2) by simp
  ultimately show ?thesis using ds by (simp add: parseInt_def Let_def)
qed

lemma parseInt_digits_nonneg:
  "ds \<noteq> [] \<Longrightarrow> \<forall>c\<in>set ds. is_digit c \<Longrightarrow> nonneg_num (parseInt ds)"
  by (simp add: parseInt_digits number_value_nonneg digits_value_nonneg)

lemma scan_versions_nonneg: "x \<in> set (scan_versions pat s) \<Longrightarrow> nonneg_num x"
proof (induction pat s rule: scan_versions.induct)
  case (1 pat s)
  show ?case
  proof (cases "s = []")
    case True
    with "1.prems" show ?thesis by (simp add: scan_versions.simps)
  next
    case False
    show ?thesis
    proof (cases "prefix pat s \<and> takeWhile is_digit (drop (length pat) s) \<noteq> []")
      case True
      have p: "nonneg_num (parseInt (takeWhile is_digit (drop (length pat) s)))"
        using True by (intro parseInt_digits_nonneg) (auto dest: set_takeWhileD)
      from "1.prems" False True
      have "x = parseInt (takeWhile is_digit (drop (length pat) s))
          \<or> x \<in> set (scan_versions pat (dropWhile is_digit (drop (length pat) s)))"
        by (subst (asm) scan_versions.simps) auto
      then show ?thesis using p "1.IH"(1) [OF False True] by auto
    next
      case nomatch: False
      from "1.prems" \<open>s \<noteq> []\<close> nomatch have "x \<in> set (scan_versions pat (tl s))"
        by (subst (asm) scan_versions.simps) auto
      then show ?thesis using "1.IH"(2) [OF \<open>s \<noteq> []\<close> nomatch] by simp
    qed
  qed
qed



lemma min2_nonneg: "nonneg_num x \<Longrightarrow> nonneg_num y \<Longrightarrow> nonneg_num (min2 x y)"
  by (auto simp: min2_def)

lemma max2_nonneg: "nonneg_num x \<Longrightarrow> nonneg_num y \<Longrightarrow> nonneg_num (max2 x y)"
  by (auto simp: max2_def)

lemma foldl_min2_nonneg:
  "nonneg_num a \<Longrightarrow> \<forall>x\<in>set xs. nonneg_num x \<Longrightarrow> nonneg_num (foldl min2 a xs)"
  by (induction xs arbitrary: a) (simp_all add: min2_nonneg)

lemma foldl_max2_nonneg:
  "nonneg_num a \<Longrightarrow> \<forall>x\<in>set xs. nonneg_num x \<Longrightarrow> nonneg_num (foldl max2 a xs)"
  by (induction xs arbitrary: a) (simp_all add: max2_nonneg)

lemma Math_min_nonneg: "\<forall>x\<in>set xs. nonneg_num x \<Longrightarrow> nonneg_num (Math_min xs)"
  by (simp add: Math_min_def foldl_min2_nonneg)

lemma max2_NInf: "nonneg_num x \<Longrightarrow> max2 NInf x = x"
  by (cases x) (simp_all add: max2_def)

lemma Math_max_nonneg:
  "\<forall>x\<in>set xs. nonneg_num x \<Longrightarrow> xs \<noteq> [] \<Longrightarrow> nonneg_num (Math_max xs)"
  by (cases xs) (simp_all add: Math_max_def max2_NInf foldl_max2_nonneg)

lemma Math_max_Nil: "Math_max [] = NInf"
  by (simp add: Math_max_def)

lemma Math_min_Nil: "Math_min [] = PInf"
  by (simp add: Math_min_def)

lemma ToLength_degenerate:
  assumes "nonneg_num mn" and "mx = NInf \<or> nonneg_num mx"
    and "mx = NInf \<or> mn = PInf \<or> js_ge mn mx"
  shows "ToLength (js_sub mx mn) = 0"
proof (cases mx)
  case NaN
  with assms(2) show ?thesis by (simp add:)
next
  case NInf
  with assms(1) show ?thesis by (cases mn) (simp_all add:)
next
  case PInf
  with assms(1,3) show ?thesis by (cases mn) (simp_all add: js_ge_def)
next
  case (Fin a)
  show ?thesis
  proof (cases mn)
    case (Fin r)
    with assms(3) \<open>mx = Fin a\<close> have "a - r \<le> 0" by (auto simp: js_ge_def)
    then show ?thesis using Fin \<open>mx = Fin a\<close> by (simp add: ToLength_number_value_nonpos)
  qed (use assms(1) \<open>mx = Fin a\<close> in \<open>simp_all\<close>)
qed

lemma Array_from_zero: "ToLength len = 0 \<Longrightarrow> Array_from cap len f = Inr []"
  by (simp add: Array_from_def)

lemma addedVersions_nonneg: "\<forall>x\<in>set (addedVersions d s). nonneg_num x"
  by (auto simp: addedVersions_def dest: scan_versions_nonneg)

lemma removedVersions_nonneg: "\<forall>x\<in>set (removedVersions d s). nonneg_num x"
  by (auto simp: removedVersions_def dest: scan_versions_nonneg)


lemma min2_Fin: "min2 (Fin a) (Fin b) = Fin (min a b)"
  by (simp add: min2_def min_def)

lemma max2_Fin: "max2 (Fin a) (Fin b) = Fin (max a b)"
  by (simp add: max2_def max_def)

lemma foldl_min2_Fin: "foldl min2 (Fin a) (map Fin rs) = Fin (fold min rs a)"
  by (induction rs arbitrary: a) (simp_all add: min2_Fin min.commute)

lemma foldl_max2_Fin: "foldl max2 (Fin a) (map Fin rs) = Fin (fold max rs a)"
  by (induction rs arbitrary: a) (simp_all add: max2_Fin max.commute)

lemma Math_min_Fin: "rs \<noteq> [] \<Longrightarrow> Math_min (map Fin rs) = Fin (Min (set rs))"
proof (cases rs)
  case (Cons r rs')
  have "min2 PInf (Fin r) = Fin r" by (simp add: min2_def)
  moreover have "Min (set (r # rs')) = fold min rs' r" by (rule Min.set_eq_fold)
  ultimately show ?thesis using Cons by (simp add: Math_min_def foldl_min2_Fin)
qed simp

lemma Math_max_Fin: "rs \<noteq> [] \<Longrightarrow> Math_max (map Fin rs) = Fin (Max (set rs))"
proof (cases rs)
  case (Cons r rs')
  have "max2 NInf (Fin r) = Fin r" by (simp add: max2_def)
  moreover have "Max (set (r # rs')) = fold max rs' r" by (rule Max.set_eq_fold)
  ultimately show ?thesis using Cons by (simp add: Math_max_def foldl_max2_Fin)
qed simp

lemma upto_as_map: "map (\<lambda>i. lo + int i + 1) [0..<nat (hi - lo)] = [lo + 1..hi]"
proof (rule nth_equalityI)
  show "length (map (\<lambda>i. lo + int i + 1) [0..<nat (hi - lo)]) = length [lo + 1..hi]" by simp
next
  fix i assume "i < length (map (\<lambda>i. lo + int i + 1) [0..<nat (hi - lo)])"
  then show "map (\<lambda>i. lo + int i + 1) [0..<nat (hi - lo)] ! i = [lo + 1..hi] ! i" by simp
qed

lemma Array_from_range:
  assumes "0 \<le> lo" and "hi < 2 ^ 53" and "hi - lo < 2 ^ 32" and "hi - lo \<le> cap"
  shows "Array_from cap (js_sub (Fin hi) (Fin lo)) (\<lambda>i. js_add (js_add (Fin lo) i) (Fin 1))
           = Inr (map Fin [lo + 1..hi])"
proof -
  have len: "ToLength (js_sub (Fin hi) (Fin lo)) = (if hi \<le> lo then 0 else hi - lo)"
  proof (cases "hi \<le> lo")
    case True
    then show ?thesis by (simp add: ToLength_number_value_nonpos)
  next
    case False
    with assms have "\<bar>hi - lo\<bar> < 2 ^ 53" by simp
    then have "number_value (hi - lo) = Fin (hi - lo)" by (rule number_value_exact)
    then show ?thesis using False assms by simp
  qed
  have el: "js_add (js_add (Fin lo) (Fin (int i))) (Fin 1) = Fin (lo + int i + 1)"
    if "i < nat (hi - lo)" for i
  proof -
    from that assms have a: "\<bar>lo + int i\<bar> < 2 ^ 53" and b: "\<bar>lo + int i + 1\<bar> < 2 ^ 53" by simp_all
    show ?thesis by (simp add: number_value_exact [OF a] number_value_exact [OF b])
  qed
  have "map (\<lambda>i. js_add (js_add (Fin lo) (Fin (int i))) (Fin 1)) [0..<nat (hi - lo)]
          = map (\<lambda>i. Fin (lo + int i + 1)) [0..<nat (hi - lo)]"
    by (rule map_cong) (simp_all add: el del: js_add.simps)
  also have "\<dots> = map Fin (map (\<lambda>i. lo + int i + 1) [0..<nat (hi - lo)])" by simp
  also have "\<dots> = map Fin [lo + 1..hi]" by (simp only: upto_as_map)
  finally have m: "map (\<lambda>i. js_add (js_add (Fin lo) (Fin (int i))) (Fin 1)) [0..<nat (hi - lo)]
      = map Fin [lo + 1..hi]" .
  show ?thesis
  proof (cases "hi \<le> lo")
    case True
    then show ?thesis using len by (simp add: Array_from_def)
  next
    case False
    then have "nat (ToLength (js_sub (Fin hi) (Fin lo))) = nat (hi - lo)" using len by simp
    moreover have "\<not> 2 ^ 32 - 1 < ToLength (js_sub (Fin hi) (Fin lo))"
      using len False assms(3) by simp
    moreover have "\<not> cap < ToLength (js_sub (Fin hi) (Fin lo))"
      using len False assms(4) by simp
    ultimately show ?thesis using m by (simp add: Array_from_def Let_def del: js_sub.simps)
  qed
qed

section \<open>Markers, substrings and the changed stages\<close>


lemma str_includes_iff: "str_includes s sub \<longleftrightarrow> (\<exists>ps ss. s = ps @ sub @ ss)"
proof (induction s)
  case Nil
  show ?case by auto
next
  case (Cons c s)
  show ?case
  proof
    assume "str_includes (c # s) sub"
    then consider "prefix sub (c # s)" | "str_includes s sub" by auto
    then show "\<exists>ps ss. c # s = ps @ sub @ ss"
    proof cases
      case 1
      then obtain ss where "c # s = sub @ ss" by (auto simp: prefix_def)
      then have "c # s = [] @ sub @ ss" by simp
      then show ?thesis by blast
    next
      case 2
      with Cons.IH obtain ps ss where "s = ps @ sub @ ss" by blast
      then have "c # s = (c # ps) @ sub @ ss" by simp
      then show ?thesis by blast
    qed
  next
    assume "\<exists>ps ss. c # s = ps @ sub @ ss"
    then obtain ps ss where e: "c # s = ps @ sub @ ss" by blast
    show "str_includes (c # s) sub"
    proof (cases ps)
      case Nil
      with e have "prefix sub (c # s)" by (simp add: prefix_def)
      then show ?thesis by simp
    next
      case (Cons p ps')
      with e have "s = ps' @ sub @ ss" by simp
      with Cons.IH have "str_includes s sub" by blast
      then show ?thesis by simp
    qed
  qed
qed

lemma scan_versions_nonempty_iff:
  "scan_versions pat s \<noteq> [] \<longleftrightarrow> (\<exists>ps c ss. s = ps @ pat @ c # ss \<and> is_digit c)"
proof (induction pat s rule: scan_versions.induct)
  case (1 pat s)
  show ?case
  proof (cases "s = []")
    case True
    then show ?thesis by (simp add: scan_versions.simps)
  next
    case False
    show ?thesis
    proof (cases "prefix pat s \<and> takeWhile is_digit (drop (length pat) s) \<noteq> []")
      case True
      then obtain r where r: "s = pat @ r" by (auto simp: prefix_def)
      with True have "takeWhile is_digit r \<noteq> []" by simp
      then obtain c ss where "r = c # ss" and "is_digit c"
        by (cases r) (auto split: if_splits)
      with r have "s = [] @ pat @ c # ss \<and> is_digit c" by simp
      then have "\<exists>ps c ss. s = ps @ pat @ c # ss \<and> is_digit c" by blast
      moreover have "scan_versions pat s \<noteq> []"
        using False True by (subst scan_versions.simps) simp
      ultimately show ?thesis by simp
    next
      case nomatch: False
      have eq: "scan_versions pat s = scan_versions pat (tl s)"
        using False nomatch by (subst scan_versions.simps) auto
      have "(\<exists>ps c ss. s = ps @ pat @ c # ss \<and> is_digit c)
          \<longleftrightarrow> (\<exists>ps c ss. tl s = ps @ pat @ c # ss \<and> is_digit c)"
      proof
        assume "\<exists>ps c ss. s = ps @ pat @ c # ss \<and> is_digit c"
        then obtain ps c ss where e: "s = ps @ pat @ c # ss" and c: "is_digit c" by blast
        have "ps \<noteq> []"
        proof
          assume "ps = []"
          with e c have "prefix pat s \<and> takeWhile is_digit (drop (length pat) s) \<noteq> []" by simp
          with nomatch show False by simp
        qed
        then obtain p ps' where "ps = p # ps'" by (cases ps) auto
        with e have "tl s = ps' @ pat @ c # ss" by simp
        with c show "\<exists>ps c ss. tl s = ps @ pat @ c # ss \<and> is_digit c" by blast
      next
        assume "\<exists>ps c ss. tl s = ps @ pat @ c # ss \<and> is_digit c"
        then obtain ps c ss where e: "tl s = ps @ pat @ c # ss" and c: "is_digit c" by blast
        from False e have "s = (hd s # ps) @ pat @ c # ss" by (cases s) simp_all
        with c show "\<exists>ps c ss. s = ps @ pat @ c # ss \<and> is_digit c" by blast
      qed
      then show ?thesis using eq "1.IH"(2) [OF False nomatch] by simp
    qed
  qed
qed

lemma added_marker_includes:
  assumes "addedVersions d s \<noteq> []"
  shows "str_includes d (''+DOTENV_VAULT_'' @ s)"
proof -
  from assms obtain ps c ss where "d = ps @ (''+DOTENV_VAULT_'' @ s @ ''_VERSION='') @ c # ss"
    unfolding addedVersions_def scan_versions_nonempty_iff by blast
  then have "d = ps @ (''+DOTENV_VAULT_'' @ s) @ (''_VERSION='' @ c # ss)" by simp
  then show ?thesis unfolding str_includes_iff by blast
qed

lemma removed_marker_includes:
  assumes "removedVersions d s \<noteq> []"
  shows "str_includes d (''-DOTENV_VAULT_'' @ s)"
proof -
  from assms obtain ps c ss where "d = ps @ (''-DOTENV_VAULT_'' @ s @ ''_VERSION='') @ c # ss"
    unfolding removedVersions_def scan_versions_nonempty_iff by blast
  then have "d = ps @ (''-DOTENV_VAULT_'' @ s) @ (''_VERSION='' @ c # ss)" by simp
  then show ?thesis unfolding str_includes_iff by blast
qed

lemma stageVersions_stage: "stageVersions cap d s = Inr r \<Longrightarrow> stage r = s"
  by (auto simp: stageVersions_def Let_def split: sum.splits)

lemma map_throwing_Inr:
  "map_throwing f xs = Inr ys \<Longrightarrow> list_all2 (\<lambda>x y. f x = Inr y) xs ys"
  by (induction xs arbitrary: ys) (auto split: sum.splits)

lemma getChangedStageVersions_Inr:
  assumes "getChangedStageVersions cap d = Inr m"
  shows "list_all2 (\<lambda>s r. stageVersions cap d s = Inr r) (changedStages d) m"
proof (cases "changedStages d = []")
  case True
  with assms show ?thesis by (simp add: getChangedStageVersions_def)
next
  case False
  with assms show ?thesis by (simp add: getChangedStageVersions_def map_throwing_Inr)
qed

lemma find_changed_stage:
  assumes "list_all2 (\<lambda>s r. stageVersions cap d s = Inr r) cs m"
  shows "find (\<lambda>c. stage c = s) m
     = (if s \<in> set cs then (case stageVersions cap d s of Inl e \<Rightarrow> None | Inr r \<Rightarrow> Some r) else None)"
  using assms
proof (induction cs m rule: list_all2_induct)
  case Nil
  show ?case by simp
next
  case (Cons x xs r rs)
  from Cons.hyps(1) have "stage r = x" by (rule stageVersions_stage)
  with Cons show ?case by auto
qed

lemma find_getChangedStageVersions:
  assumes "getChangedStageVersions cap d = Inr m"
  shows "find (\<lambda>c. stage c = s) m
     = (if s \<in> set (changedStages d)
        then (case stageVersions cap d s of Inl e \<Rightarrow> None | Inr r \<Rightarrow> Some r) else None)"
  using getChangedStageVersions_Inr [OF assms] by (rule find_changed_stage)

lemma stages_of_getChangedStageVersions:
  assumes "getChangedStageVersions cap d = Inr m"
  shows "map stage m = changedStages d"
proof -
  have "list_all2 (\<lambda>s r. stage r = s) (changedStages d) m"
    using getChangedStageVersions_Inr [OF assms]
    by (rule list_all2_mono) (simp add: stageVersions_stage)
  then show ?thesis
    by (induction rule: list_all2_induct) simp_all
qed

lemma in_changedStages:
  "s \<in> set (changedStages d) \<longleftrightarrow> s \<in> set STAGES
     \<and> (str_includes d (''+DOTENV_VAULT_'' @ s) \<or> str_includes d (''-DOTENV_VAULT_'' @ s))"
  by (simp add: changedStages_def)

text \<open>
  The loop of \<^verbatim>\<open>exec\<close> goes on behind each match, so it does not look at the positions
  inside a match. No marker starts there: the first code unit of the pattern (the sign) is
  neither in the rest of the pattern nor a digit. The loop therefore finds every marker.
\<close>

lemma no_marker_inside:
  "p \<notin> set xs \<Longrightarrow> marker_values (p # ps) (xs @ rest) = marker_values (p # ps) rest"
  by (induction xs) auto

lemma scan_versions_markers:
  assumes "p \<notin> set ps" and "\<not> is_digit p"
  shows "scan_versions (p # ps) s = map number_value (marker_values (p # ps) s)"
proof (induction "p # ps" s rule: scan_versions.induct)
  case (1 s)
  let ?pat = "p # ps"
  show ?case
  proof (cases "s = []")
    case True
    then show ?thesis by (simp add: scan_versions.simps)
  next
    case False
    show ?thesis
    proof (cases "prefix ?pat s \<and> takeWhile is_digit (drop (length ?pat) s) \<noteq> []")
      case True
      then obtain r where sr: "s = ?pat @ r" by (auto simp: prefix_def)
      then have dr: "drop (length ?pat) s = r" by simp
      define ds where "ds = takeWhile is_digit r"
      define rest where "rest = dropWhile is_digit r"
      have r: "r = ds @ rest" by (simp add: ds_def rest_def)
      have ne: "ds \<noteq> []" using True dr by (simp add: ds_def)
      have digits: "\<forall>c\<in>set ds. is_digit c" by (auto simp: ds_def dest: set_takeWhileD)
      have "p \<notin> set (ps @ ds)" using assms digits by auto
      then have "marker_values ?pat ((ps @ ds) @ rest) = marker_values ?pat rest"
        by (rule no_marker_inside)
      moreover have "marker_values ?pat (?pat @ r)
          = digits_value ds # marker_values ?pat ((ps @ ds) @ rest)"
        using ne by (simp add: ds_def [symmetric]) (simp add: r)
      ultimately have m: "marker_values ?pat s = digits_value ds # marker_values ?pat rest"
        by (simp only: sr)
      have "scan_versions ?pat s = parseInt ds # scan_versions ?pat rest"
        using False True by (subst scan_versions.simps) (simp add: dr [simplified] ds_def rest_def)
      also have "parseInt ds = number_value (digits_value ds)"
        using ne digits by (rule parseInt_digits)
      also have "scan_versions ?pat rest = map number_value (marker_values ?pat rest)"
        using "1.hyps"(1) [OF False True] by (simp only: dr rest_def)
      finally show ?thesis using m by simp
    next
      case nomatch: False
      obtain c cs where s: "s = c # cs" using False by (cases s) auto
      have "scan_versions ?pat s = scan_versions ?pat (tl s)"
        using False nomatch by (subst scan_versions.simps) auto
      also have "\<dots> = map number_value (marker_values ?pat (tl s))"
        using "1.hyps"(2) [OF False nomatch] .
      also have "marker_values ?pat (tl s) = marker_values ?pat s"
        using nomatch unfolding s by auto
      finally show ?thesis .
    qed
  qed
qed

lemma marker_values_nonneg: "n \<in> set (marker_values pat s) \<Longrightarrow> 0 \<le> n"
proof (induction s)
  case Nil
  then show ?case by simp
next
  case (Cons c cs)
  have "0 \<le> digits_value (takeWhile is_digit xs)" for xs
    by (rule digits_value_nonneg) (auto dest: set_takeWhileD)
  with Cons show ?case by (auto split: if_splits)
qed

lemma addedVersions_markers:
  "s \<in> set STAGES \<Longrightarrow> addedVersions d s = map number_value (added_markers d s)"
  unfolding addedVersions_def added_markers_def
  by (simp only: append_Cons append_Nil, rule scan_versions_markers)
    (auto simp: STAGES_def is_digit_def)

lemma removedVersions_markers:
  "s \<in> set STAGES \<Longrightarrow> removedVersions d s = map number_value (removed_markers d s)"
  unfolding removedVersions_def removed_markers_def
  by (simp only: append_Cons append_Nil, rule scan_versions_markers)
    (auto simp: STAGES_def is_digit_def)

lemma safe_markers_exact:
  assumes "\<forall>n\<in>set (marker_values pat d). n < 2 ^ 53"
  shows "map number_value (marker_values pat d) = map Fin (marker_values pat d)"
proof (rule map_cong [OF refl])
  fix n assume "n \<in> set (marker_values pat d)"
  then have "0 \<le> n" and "n < 2 ^ 53" using assms marker_values_nonneg by blast+
  then have "\<bar>n\<bar> < 2 ^ 53" by simp
  then show "number_value n = Fin n" by (rule number_value_exact)
qed

lemma changed_stage_in_result:
  assumes "getChangedStageVersions cap d = Inr m" and "s \<in> set (changedStages d)"
  shows "\<exists>r. stageVersions cap d s = Inr r \<and> r \<in> set m \<and> find (\<lambda>c. stage c = s) m = Some r"
proof -
  have f: "find (\<lambda>c. stage c = s) m = (case stageVersions cap d s of Inl e \<Rightarrow> None | Inr r \<Rightarrow> Some r)"
    using find_getChangedStageVersions [OF assms(1), of s] assms(2) by simp
  have "s \<in> set (map stage m)"
    using assms by (simp add: stages_of_getChangedStageVersions del: set_map)
  then obtain r0 where "r0 \<in> set m" and "stage r0 = s" by auto
  then have "find (\<lambda>c. stage c = s) m \<noteq> None" by (auto simp: find_None_iff)
  with f obtain r where r: "stageVersions cap d s = Inr r" and fr: "find (\<lambda>c. stage c = s) m = Some r"
    by (cases "stageVersions cap d s") auto
  from fr have "r \<in> set m" by (auto simp: find_Some_iff)
  with r fr show ?thesis by blast
qed

lemma stage_entry_in_result:
  assumes "getChangedStageVersions cap d = Inr m" and "s \<in> set (changedStages d)"
    and "stageVersions cap d s = Inr r"
  shows "find (\<lambda>c. stage c = s) m = Some r"
  using changed_stage_in_result [OF assms(1,2)] assms(3) by auto

section \<open>The range of a stage\<close>

lemma stageVersions_degenerate:
  assumes "addedVersions d s = [] \<or> removedVersions d s = []
      \<or> js_ge (Math_min (removedVersions d s)) (Math_max (addedVersions d s))"
  shows "stageVersions cap d s = Inr \<lparr>stage = s, versions = []\<rparr>"
proof -
  let ?mn = "Math_min (removedVersions d s)" and ?mx = "Math_max (addedVersions d s)"
  have mn: "nonneg_num ?mn" by (rule Math_min_nonneg) (rule removedVersions_nonneg)
  have mx: "?mx = NInf \<or> nonneg_num ?mx"
    by (cases "addedVersions d s = []") (simp_all add: Math_max_Nil Math_max_nonneg addedVersions_nonneg)
  have "?mx = NInf \<or> ?mn = PInf \<or> js_ge ?mn ?mx"
    using assms by (auto simp: Math_max_Nil Math_min_Nil)
  with mn mx have "ToLength (js_sub ?mx ?mn) = 0" by (rule ToLength_degenerate)
  then show ?thesis by (simp add: stageVersions_def Let_def Array_from_zero)
qed

text \<open>
  C2. A stage with no added-version marker, or with no removed-version marker, or whose least
  removed version is at least its greatest added version, gets the empty range: the callback
  returns (no exception), and the array has no element at all; this is the range of the stage
  in the result of \<^verbatim>\<open>getChangedStageVersions\<close>. Without an argument \<^verbatim>\<open>Math.min\<close> is
  \<^verbatim>\<open>Infinity\<close> and \<^verbatim>\<open>Math.max\<close> is \<^verbatim>\<open>-Infinity\<close>, the length is then \<^verbatim>\<open>-Infinity\<close> or
  NaN, and \<^verbatim>\<open>Array.from\<close> reads both as 0.
\<close>

theorem degenerate_range_is_empty:
  assumes "addedVersions d s = [] \<or> removedVersions d s = []
      \<or> js_ge (Math_min (removedVersions d s)) (Math_max (addedVersions d s))"
  shows "stageVersions cap d s = Inr \<lparr>stage = s, versions = []\<rparr>
     \<and> (\<forall>m. getChangedStageVersions cap d = Inr m \<longrightarrow> s \<in> set (changedStages d)
            \<longrightarrow> find (\<lambda>c. stage c = s) m = Some \<lparr>stage = s, versions = []\<rparr>)"
  using stageVersions_degenerate [OF assms] stage_entry_in_result by blast

theorem degenerate_range_is_empty_witness:
  "removedVersions ''+DOTENV_VAULT_CI_VERSION=5'' ''CI'' = []
   \<and> stageVersions 1000000 ''+DOTENV_VAULT_CI_VERSION=5'' ''CI'' = Inr \<lparr>stage = ''CI'', versions = []\<rparr>
   \<and> addedVersions ''-DOTENV_VAULT_CI_VERSION=5'' ''CI'' = []
   \<and> stageVersions 1000000 ''-DOTENV_VAULT_CI_VERSION=5'' ''CI'' = Inr \<lparr>stage = ''CI'', versions = []\<rparr>
   \<and> js_ge (Math_min (removedVersions ''-DOTENV_VAULT_CI_VERSION=6\<newline>+DOTENV_VAULT_CI_VERSION=3'' ''CI''))
        (Math_max (addedVersions ''-DOTENV_VAULT_CI_VERSION=6\<newline>+DOTENV_VAULT_CI_VERSION=3'' ''CI''))
   \<and> stageVersions 1000000 ''-DOTENV_VAULT_CI_VERSION=6\<newline>+DOTENV_VAULT_CI_VERSION=3'' ''CI''
        = Inr \<lparr>stage = ''CI'', versions = []\<rparr>"
proof -
  have h1: "removedVersions ''+DOTENV_VAULT_CI_VERSION=5'' ''CI'' = []" by code_simp
  have h2: "addedVersions ''-DOTENV_VAULT_CI_VERSION=5'' ''CI'' = []" by code_simp
  have h3: "js_ge (Math_min (removedVersions ''-DOTENV_VAULT_CI_VERSION=6\<newline>+DOTENV_VAULT_CI_VERSION=3'' ''CI''))
        (Math_max (addedVersions ''-DOTENV_VAULT_CI_VERSION=6\<newline>+DOTENV_VAULT_CI_VERSION=3'' ''CI''))"
    by code_simp
  show ?thesis
    using h1 h2 h3
      degenerate_range_is_empty [of "''+DOTENV_VAULT_CI_VERSION=5''" "''CI''" 1000000]
      degenerate_range_is_empty [of "''-DOTENV_VAULT_CI_VERSION=5''" "''CI''" 1000000]
      degenerate_range_is_empty
        [of "''-DOTENV_VAULT_CI_VERSION=6\<newline>+DOTENV_VAULT_CI_VERSION=3''" "''CI''" 1000000]
    by blast
qed

text \<open>
  The range from the versions that the two loops collected, when these are exact.
\<close>

lemma stageVersions_range:
  assumes rem: "removedVersions d s = map Fin rs" and add: "addedVersions d s = map Fin as"
    and ne: "rs \<noteq> []" "as \<noteq> []"
    and safe: "\<forall>n\<in>set rs \<union> set as. n < 2 ^ 53"
    and len: "Max (set as) - Min (set rs) < 2 ^ 32" "Max (set as) - Min (set rs) \<le> cap"
  shows "stageVersions cap d s = Inr \<lparr>stage = s, versions = map Fin [Min (set rs) + 1..Max (set as)]\<rparr>
    \<and> set [Min (set rs) + 1..Max (set as)] = {n. Min (set rs) < n \<and> n \<le> Max (set as)}"
proof -
  let ?lo = "Min (set rs)" and ?hi = "Max (set as)"
  have "?lo \<in> set rs" using ne by (intro Min_in) simp_all
  then have "Fin ?lo \<in> set (removedVersions d s)" using rem by simp
  then have "nonneg_num (Fin ?lo)" using removedVersions_nonneg by blast
  then have lo: "0 \<le> ?lo" by simp
  have "?hi \<in> set as" using ne by (intro Max_in) simp_all
  then have hi: "?hi < 2 ^ 53" using safe by blast
  have "Array_from cap (js_sub (Fin ?hi) (Fin ?lo)) (\<lambda>i. js_add (js_add (Fin ?lo) i) (Fin 1))
          = Inr (map Fin [?lo + 1..?hi])"
    using lo hi len by (rule Array_from_range)
  then have "stageVersions cap d s = Inr \<lparr>stage = s, versions = map Fin [?lo + 1..?hi]\<rparr>"
    by (simp add: stageVersions_def Let_def rem add Math_min_Fin ne Math_max_Fin)
  moreover have "set [?lo + 1..?hi] = {n. ?lo < n \<and> n \<le> ?hi}" by auto
  ultimately show ?thesis by simp
qed

text \<open>
  C1, as amended. When a stage of the list has removed-version and added-version markers in
  the diff, every version written in them is below \<open>2 ^ 53\<close> (so that a Number holds it
  exactly) and the greatest added version exceeds the least removed one by less than
  \<open>2 ^ 32\<close> and by no more than \<open>cap\<close>, the greatest length of an array that the engine
  builds, the range of the stage is the ascending list of the integers above the least
  removed version, up to the greatest added version; it is the range of the stage in the
  result of \<^verbatim>\<open>getChangedStageVersions\<close>, when that returns one.
\<close>

theorem range_between_bounds:
  assumes stg: "s \<in> set STAGES"
    and ne: "removed_markers d s \<noteq> []" "added_markers d s \<noteq> []"
    and safe: "\<forall>n\<in>set (removed_markers d s) \<union> set (added_markers d s). n < 2 ^ 53"
    and len: "Max (set (added_markers d s)) - Min (set (removed_markers d s)) < 2 ^ 32"
      "Max (set (added_markers d s)) - Min (set (removed_markers d s)) \<le> cap"
  shows "stageVersions cap d s
       = Inr \<lparr>stage = s,
              versions = map Fin [Min (set (removed_markers d s)) + 1..Max (set (added_markers d s))]\<rparr>
     \<and> set [Min (set (removed_markers d s)) + 1..Max (set (added_markers d s))]
       = {n. Min (set (removed_markers d s)) < n \<and> n \<le> Max (set (added_markers d s))}
     \<and> (\<forall>m. getChangedStageVersions cap d = Inr m \<longrightarrow>
           find (\<lambda>c. stage c = s) m
             = Some \<lparr>stage = s,
                  versions = map Fin [Min (set (removed_markers d s)) + 1..Max (set (added_markers d s))]\<rparr>)"
proof -
  have rem: "removedVersions d s = map Fin (removed_markers d s)"
    using safe by (simp add: removedVersions_markers [OF stg] removed_markers_def safe_markers_exact)
  have add: "addedVersions d s = map Fin (added_markers d s)"
    using safe by (simp add: addedVersions_markers [OF stg] added_markers_def safe_markers_exact)
  have r: "stageVersions cap d s
       = Inr \<lparr>stage = s,
              versions = map Fin [Min (set (removed_markers d s)) + 1..Max (set (added_markers d s))]\<rparr>
     \<and> set [Min (set (removed_markers d s)) + 1..Max (set (added_markers d s))]
       = {n. Min (set (removed_markers d s)) < n \<and> n \<le> Max (set (added_markers d s))}"
    using rem add ne safe len by (rule stageVersions_range)
  have "removedVersions d s \<noteq> []" using rem ne by simp
  then have "s \<in> set (changedStages d)"
    using stg removed_marker_includes by (simp add: in_changedStages)
  then show ?thesis using r stage_entry_in_result by blast
qed

theorem range_between_bounds_witness:
  "removed_markers ''-DOTENV_VAULT_STAGING_VERSION=3\<newline>+DOTENV_VAULT_STAGING_VERSION=6'' ''STAGING'' = [3]
   \<and> added_markers ''-DOTENV_VAULT_STAGING_VERSION=3\<newline>+DOTENV_VAULT_STAGING_VERSION=6'' ''STAGING'' = [6]
   \<and> stageVersions 1000000 ''-DOTENV_VAULT_STAGING_VERSION=3\<newline>+DOTENV_VAULT_STAGING_VERSION=6'' ''STAGING''
     = Inr \<lparr>stage = ''STAGING'', versions = [Fin 4, Fin 5, Fin 6]\<rparr>
   \<and> removed_markers
        ''-DOTENV_VAULT_CI_VERSION=3\<newline>+DOTENV_VAULT_CI_VERSION=5\<newline>+DOTENV_VAULT_CI_VERSION=8'' ''CI''
     = [3]
   \<and> added_markers
        ''-DOTENV_VAULT_CI_VERSION=3\<newline>+DOTENV_VAULT_CI_VERSION=5\<newline>+DOTENV_VAULT_CI_VERSION=8'' ''CI''
     = [5, 8]
   \<and> stageVersions 1000000
        ''-DOTENV_VAULT_CI_VERSION=3\<newline>+DOTENV_VAULT_CI_VERSION=5\<newline>+DOTENV_VAULT_CI_VERSION=8'' ''CI''
     = Inr \<lparr>stage = ''CI'', versions = [Fin 4, Fin 5, Fin 6, Fin 7, Fin 8]\<rparr>"
proof -
  let ?d1 = "''-DOTENV_VAULT_STAGING_VERSION=3\<newline>+DOTENV_VAULT_STAGING_VERSION=6''"
  let ?d2 = "''-DOTENV_VAULT_CI_VERSION=3\<newline>+DOTENV_VAULT_CI_VERSION=5\<newline>+DOTENV_VAULT_CI_VERSION=8''"
  have s1: "''STAGING'' \<in> set STAGES" and s2: "''CI'' \<in> set STAGES" by (simp_all add: STAGES_def)
  have r1: "removed_markers ?d1 ''STAGING'' = [3]" by code_simp
  have a1: "added_markers ?d1 ''STAGING'' = [6]" by code_simp
  have r2: "removed_markers ?d2 ''CI'' = [3]" by code_simp
  have a2: "added_markers ?d2 ''CI'' = [5, 8]" by code_simp
  have u1: "[Min (set [3::int]) + 1..Max (set [6])] = [4, 5, 6]" by code_simp
  have u2: "[Min (set [3::int]) + 1..Max (set [5, 8])] = [4, 5, 6, 7, 8]" by code_simp
  show ?thesis
    using range_between_bounds [OF s1, of ?d1 1000000] range_between_bounds [OF s2, of ?d2 1000000]
    by (simp add: r1 a1 r2 a2 u1 u2)
qed

text \<open>
  C1 as stated fails where the numbers leave the integers that a Number and an array can
  hold. With removed version 0 and added version \<open>2 ^ 32\<close> both markers are there, and
  \<^verbatim>\<open>Array.from\<close> throws a RangeError instead of returning the range, whatever the engine
  (here the most generous one). With removed version 0 and added version \<open>2 ^ 27\<close>, an
  engine that builds arrays of fewer than \<open>2 ^ 27\<close> elements only returns no range either.
  With removed version \<open>2 ^ 53\<close> and added version \<open>2 ^ 53 + 2\<close> the two sums are
  rounded, and the range holds \<open>2 ^ 53\<close> twice instead of the two integers above it.
\<close>

theorem range_between_bounds_counterexample:
  "removed_markers ''-DOTENV_VAULT_CI_VERSION=0\<newline>+DOTENV_VAULT_CI_VERSION=4294967296'' ''CI'' = [0]
   \<and> added_markers ''-DOTENV_VAULT_CI_VERSION=0\<newline>+DOTENV_VAULT_CI_VERSION=4294967296'' ''CI''
       = [4294967296]
   \<and> stageVersions 4294967295 ''-DOTENV_VAULT_CI_VERSION=0\<newline>+DOTENV_VAULT_CI_VERSION=4294967296'' ''CI''
       = Inl RangeError
   \<and> getChangedStageVersions 4294967295
         ''-DOTENV_VAULT_CI_VERSION=0\<newline>+DOTENV_VAULT_CI_VERSION=4294967296''
       = Inl RangeError
   \<and> removed_markers ''-DOTENV_VAULT_CI_VERSION=0\<newline>+DOTENV_VAULT_CI_VERSION=134217728'' ''CI'' = [0]
   \<and> added_markers ''-DOTENV_VAULT_CI_VERSION=0\<newline>+DOTENV_VAULT_CI_VERSION=134217728'' ''CI''
       = [134217728]
   \<and> stageVersions 134217727 ''-DOTENV_VAULT_CI_VERSION=0\<newline>+DOTENV_VAULT_CI_VERSION=134217728'' ''CI''
       = Inl EngineLimit
   \<and> getChangedStageVersions 134217727
         ''-DOTENV_VAULT_CI_VERSION=0\<newline>+DOTENV_VAULT_CI_VERSION=134217728''
       = Inl EngineLimit
   \<and> removed_markers
         ''-DOTENV_VAULT_CI_VERSION=9007199254740992\<newline>+DOTENV_VAULT_CI_VERSION=9007199254740994'' ''CI''
       = [9007199254740992]
   \<and> added_markers
         ''-DOTENV_VAULT_CI_VERSION=9007199254740992\<newline>+DOTENV_VAULT_CI_VERSION=9007199254740994'' ''CI''
       = [9007199254740994]
   \<and> stageVersions 1000000
         ''-DOTENV_VAULT_CI_VERSION=9007199254740992\<newline>+DOTENV_VAULT_CI_VERSION=9007199254740994'' ''CI''
       = Inr \<lparr>stage = ''CI'', versions = [Fin 9007199254740992, Fin 9007199254740992]\<rparr>"
  by code_simp

section \<open>Which stages are in the result of \<^verbatim>\<open>getChangedStageVersions\<close>\<close>


text \<open>
  C3, as amended. A stage is in the result only if the diff contains
  \<^verbatim>\<open>+DOTENV_VAULT_<STAGE>\<close> or \<^verbatim>\<open>-DOTENV_VAULT_<STAGE>\<close>: one of the two is enough. A stage
  with added-version markers only, or with removed-version markers only, is in the result,
  with the empty range.
\<close>

theorem changed_stage_needs_one_marker_only:
  assumes "getChangedStageVersions cap d = Inr m"
  shows "(\<forall>r\<in>set m. stage r \<in> set STAGES
            \<and> (str_includes d (''+DOTENV_VAULT_'' @ stage r)
               \<or> str_includes d (''-DOTENV_VAULT_'' @ stage r)))
     \<and> (s \<in> set STAGES \<longrightarrow> (addedVersions d s = []) \<noteq> (removedVersions d s = [])
          \<longrightarrow> \<lparr>stage = s, versions = []\<rparr> \<in> set m)"
proof (intro conjI ballI impI)
  fix r assume "r \<in> set m"
  then have "stage r \<in> set (map stage m)" by simp
  then have "stage r \<in> set (changedStages d)"
    using assms by (simp add: stages_of_getChangedStageVersions del: set_map)
  then show "stage r \<in> set STAGES" 
    and "str_includes d (''+DOTENV_VAULT_'' @ stage r) \<or> str_includes d (''-DOTENV_VAULT_'' @ stage r)"
    by (simp_all add: in_changedStages)
next
  assume s: "s \<in> set STAGES" and one: "(addedVersions d s = []) \<noteq> (removedVersions d s = [])"
  then have "str_includes d (''+DOTENV_VAULT_'' @ s) \<or> str_includes d (''-DOTENV_VAULT_'' @ s)"
    using added_marker_includes [of d s] removed_marker_includes [of d s] by auto
  with s have "s \<in> set (changedStages d)" by (simp add: in_changedStages)
  with assms obtain r where "stageVersions cap d s = Inr r" and "r \<in> set m"
    using changed_stage_in_result by blast
  moreover have "stageVersions cap d s = Inr \<lparr>stage = s, versions = []\<rparr>"
    using one by (intro stageVersions_degenerate) auto
  ultimately show "\<lparr>stage = s, versions = []\<rparr> \<in> set m" by simp
qed

theorem changed_stage_needs_one_marker_only_witness:
  "getChangedStageVersions 1000000 ''+DOTENV_VAULT_CI_VERSION=5'' = Inr [\<lparr>stage = ''CI'', versions = []\<rparr>]
   \<and> addedVersions ''+DOTENV_VAULT_CI_VERSION=5'' ''CI'' \<noteq> []
   \<and> removedVersions ''+DOTENV_VAULT_CI_VERSION=5'' ''CI'' = []
   \<and> str_includes ''+DOTENV_VAULT_CI_VERSION=5'' ''+DOTENV_VAULT_CI''
   \<and> \<lparr>stage = ''CI'', versions = []\<rparr> \<in> set [\<lparr>stage = ''CI'', versions = []\<rparr>]"
proof -
  have g: "getChangedStageVersions 1000000 ''+DOTENV_VAULT_CI_VERSION=5'' = Inr [\<lparr>stage = ''CI'', versions = []\<rparr>]"
    by code_simp
  have s: "''CI'' \<in> set STAGES" by (simp add: STAGES_def)
  have a: "addedVersions ''+DOTENV_VAULT_CI_VERSION=5'' ''CI'' \<noteq> []" by code_simp
  have r: "removedVersions ''+DOTENV_VAULT_CI_VERSION=5'' ''CI'' = []" by code_simp
  have n: "\<not> str_includes ''+DOTENV_VAULT_CI_VERSION=5'' ''-DOTENV_VAULT_CI''" by code_simp
  show ?thesis
    using changed_stage_needs_one_marker_only [OF g, of "''CI''"] g s a r n by simp
qed

text \<open>
  C3 as stated fails on a diff with an added-version marker and no removed-version marker:
  the stage CI is in the result.
\<close>

theorem add_only_stage_counterexample:
  "removedVersions ''+DOTENV_VAULT_CI_VERSION=5'' ''CI'' = []
   \<and> getChangedStageVersions 1000000 ''+DOTENV_VAULT_CI_VERSION=5'' = Inr [\<lparr>stage = ''CI'', versions = []\<rparr>]"
  by code_simp

text \<open>
  C10. For a stage of the list, being in the result is the substring test for
  \<^verbatim>\<open>+DOTENV_VAULT_<STAGE>\<close> or \<^verbatim>\<open>-DOTENV_VAULT_<STAGE>\<close>, whatever follows the stage name. A
  stage that passes the test without any version marker (only its encrypted line was touched)
  has the empty range in the result, and its text in the comment is
  \<^verbatim>\<open><STAGE>: No versions changed\<close>, whatever the listing holds.
\<close>

theorem blob_only_change_marks_stage:
  assumes "getChangedStageVersions cap d = Inr m" and "s \<in> set STAGES"
  shows "(s \<in> stage ` set m
            \<longleftrightarrow> str_includes d (''+DOTENV_VAULT_'' @ s) \<or> str_includes d (''-DOTENV_VAULT_'' @ s))
     \<and> (str_includes d (''+DOTENV_VAULT_'' @ s) \<or> str_includes d (''-DOTENV_VAULT_'' @ s)
          \<longrightarrow> addedVersions d s = [] \<longrightarrow> removedVersions d s = []
          \<longrightarrow> find (\<lambda>c. stage c = s) m = Some \<lparr>stage = s, versions = []\<rparr>
              \<and> versionOutput exec m s = s @ '': No versions changed'')"
proof (intro conjI impI)
  have "stage ` set m = set (changedStages d)"
    using stages_of_getChangedStageVersions [OF assms(1)] by (metis set_map)
  then show "s \<in> stage ` set m
      \<longleftrightarrow> str_includes d (''+DOTENV_VAULT_'' @ s) \<or> str_includes d (''-DOTENV_VAULT_'' @ s)"
    using assms(2) by (simp add: in_changedStages)
next
  assume inc: "str_includes d (''+DOTENV_VAULT_'' @ s) \<or> str_includes d (''-DOTENV_VAULT_'' @ s)"
    and none: "addedVersions d s = []" "removedVersions d s = []"
  from inc assms(2) have "s \<in> set (changedStages d)" by (simp add: in_changedStages)
  with assms(1) obtain r where "stageVersions cap d s = Inr r" and "find (\<lambda>c. stage c = s) m = Some r"
    using changed_stage_in_result by blast
  moreover have "stageVersions cap d s = Inr \<lparr>stage = s, versions = []\<rparr>"
    using none by (intro stageVersions_degenerate) simp
  ultimately show f: "find (\<lambda>c. stage c = s) m = Some \<lparr>stage = s, versions = []\<rparr>" by simp
  then show "versionOutput exec m s = s @ '': No versions changed''"
    by (simp add: versionOutput_def)
qed

theorem blob_only_change_marks_stage_witness:
  "''CI'' \<in> stage ` set [\<lparr>stage = ''CI'', versions = []\<rparr>]
   \<and> addedVersions (''+DOTENV_VAULT_CI='' @ [CHR 0x22] @ ''s3cr3t'' @ [CHR 0x22]) ''CI'' = []
   \<and> removedVersions (''+DOTENV_VAULT_CI='' @ [CHR 0x22] @ ''s3cr3t'' @ [CHR 0x22]) ''CI'' = []
   \<and> versionOutput (\<lambda>s. Inr '''') [\<lparr>stage = ''CI'', versions = []\<rparr>] ''CI'' = ''CI: No versions changed''"
proof -
  let ?d = "''+DOTENV_VAULT_CI='' @ [CHR 0x22] @ ''s3cr3t'' @ [CHR 0x22]"
  have g: "getChangedStageVersions 1000000 ?d = Inr [\<lparr>stage = ''CI'', versions = []\<rparr>]" by code_simp
  have s: "''CI'' \<in> set STAGES" by (simp add: STAGES_def)
  have i: "str_includes ?d (''+DOTENV_VAULT_'' @ ''CI'')" by code_simp
  have a: "addedVersions ?d ''CI'' = []" by code_simp
  have r: "removedVersions ?d ''CI'' = []" by code_simp
  show ?thesis
    using blob_only_change_marks_stage [OF g s, of "\<lambda>s. Inr ''''"] i a r by simp
qed

section \<open>The rows of a listing\<close>

lemma parse_listing_truthy: "r \<in> set (parse_listing stdout) \<Longrightarrow> truthy (version r)"
  by (simp add: parse_listing_def)

lemma truthy_iff: "truthy v \<longleftrightarrow> (\<exists>s. v = Some s \<and> s \<noteq> [])"
  by (cases v) (simp_all add: truthy_def)

lemma version_parse_line:
  "version (parse_line line)
     = (case split_spaces (trim line) of g # _ # _ \<Rightarrow> Some (replace_v g) | _ \<Rightarrow> None)"
  by (simp add: parse_line_def Let_def split: list.splits)

text \<open>
  C4, as amended. The version is read from the first column. With the version first, the row
  \<^verbatim>\<open>v7  field-a field-b  alice 2024-01-01 10:00\<close> behind two header lines gives one record:
  version \<^verbatim>\<open>7\<close> (a text, which \<^verbatim>\<open>parseInt\<close> reads as 7), fields \<^verbatim>\<open>field-a field-b\<close>, user
  \<^verbatim>\<open>alice\<close>, time \<^verbatim>\<open>2024-01-01 10:00\<close>. The row of the claim gives one record too, with the
  user and the time of the claim, and with its first column \<^verbatim>\<open>field-a\<close> as the version.
\<close>

theorem listing_row_version_first:
  "parse_listing ''h1\<newline>h2\<newline>v7  field-a field-b  alice 2024-01-01 10:00''
     = [\<lparr>version = Some ''7'', fields_col = ''field-a field-b'', user = Some ''alice'',
          time = ''2024-01-01 10:00''\<rparr>]
   \<and> parseInt ''7'' = Fin 7
   \<and> map (\<lambda>r. (version r, user r, time r))
        (parse_listing ''h1\<newline>h2\<newline>field-a  field-b   v7  alice 2024-01-01 10:00'')
     = [(Some ''field-a'', Some ''alice'', ''2024-01-01 10:00'')]"
  by code_simp

text \<open>
  C4 as stated fails: on the row \<^verbatim>\<open>field-a  field-b   v7  alice 2024-01-01 10:00\<close> the
  version of the record is the text \<^verbatim>\<open>field-a\<close>, not 7, and the fields are \<^verbatim>\<open>field-b\<close>.
\<close>

theorem listing_row_counterexample:
  "parse_listing ''h1\<newline>h2\<newline>field-a  field-b   v7  alice 2024-01-01 10:00''
     = [\<lparr>version = Some ''field-a'', fields_col = ''field-b'', user = Some ''alice'',
          time = ''2024-01-01 10:00''\<rparr>]
   \<and> parseInt ''field-a'' \<noteq> Fin 7"
  by code_simp

text \<open>
  C5, as amended. Every record that \<^verbatim>\<open>getAllVersions\<close> returns has a version that is a
  non-empty text; a row is kept exactly when it has at least two columns and its first column
  is not empty once its first \<^verbatim>\<open>v\<close> is removed. Whether the version reads as an integer is
  not tested.
\<close>

theorem listed_versions_are_nonempty_texts:
  "(\<forall>r\<in>set (getAllVersions exec s). \<exists>v. version r = Some v \<and> v \<noteq> [])
   \<and> (truthy (version (parse_line line))
        \<longleftrightarrow> (case split_spaces (trim line) of g # _ # _ \<Rightarrow> replace_v g \<noteq> [] | _ \<Rightarrow> False))"
proof
  show "\<forall>r\<in>set (getAllVersions exec s). \<exists>v. version r = Some v \<and> v \<noteq> []"
    by (auto simp: getAllVersions_def truthy_iff [symmetric] split: sum.splits
        dest: parse_listing_truthy)
  show "truthy (version (parse_line line))
        \<longleftrightarrow> (case split_spaces (trim line) of g # _ # _ \<Rightarrow> replace_v g \<noteq> [] | _ \<Rightarrow> False)"
    by (simp add: version_parse_line truthy_def split: list.splits)
qed

theorem listed_versions_are_nonempty_texts_witness:
  "getAllVersions (\<lambda>s. Inr ''h1\<newline>h2\<newline>abc  x  alice now\<newline>v  y  bob then'') ''CI''
      = [\<lparr>version = Some ''abc'', fields_col = ''x'', user = Some ''alice'', time = ''now''\<rparr>]
   \<and> (\<exists>v. version \<lparr>version = Some ''abc'', fields_col = ''x'', user = Some ''alice'', time = ''now''\<rparr>
          = Some v \<and> v \<noteq> [])
   \<and> split_spaces (trim ''v  y  bob then'') = [''v'', ''y'', ''bob then'']
   \<and> \<not> truthy (version (parse_line ''v  y  bob then''))"
proof -
  have g: "getAllVersions (\<lambda>s. Inr ''h1\<newline>h2\<newline>abc  x  alice now\<newline>v  y  bob then'') ''CI''
      = [\<lparr>version = Some ''abc'', fields_col = ''x'', user = Some ''alice'', time = ''now''\<rparr>]"
    by code_simp
  have t: "split_spaces (trim ''v  y  bob then'') = [''v'', ''y'', ''bob then'']" by code_simp
  show ?thesis
    using listed_versions_are_nonempty_texts
      [of "\<lambda>s. Inr ''h1\<newline>h2\<newline>abc  x  alice now\<newline>v  y  bob then''" "''CI''" "''v  y  bob then''"] g t
    by simp
qed

text \<open>
  C5 as stated fails: the row \<^verbatim>\<open>abc  x  alice now\<close> is kept, and its version \<^verbatim>\<open>abc\<close> does
  not read as an integer.
\<close>

theorem non_integer_version_counterexample:
  "parse_listing ''h1\<newline>h2\<newline>abc  x  alice now''
     = [\<lparr>version = Some ''abc'', fields_col = ''x'', user = Some ''alice'', time = ''now''\<rparr>]
   \<and> parseInt ''abc'' = NaN"
  by code_simp

section \<open>The text of the comment\<close>

lemma prefix_join: "prefix p x \<Longrightarrow> prefix p (join sep (x # xs))"
  by (cases xs) (auto simp: prefix_def)

lemma prefix_version_line: "prefix s (version_line s r)"
  by (simp add: version_line_def)

lemma prefix_versionOutput: "prefix s (versionOutput exec m s)"
proof (cases "find (\<lambda>c. stage c = s) m")
  case None
  then show ?thesis by (simp add: versionOutput_def)
next
  case (Some c)
  let ?kept = "filter (\<lambda>v. parseInt (js_string (version v)) \<in> set (versions c)) (getAllVersions exec s)"
  show ?thesis
  proof (cases ?kept)
    case Nil
    with Some show ?thesis by (simp add: versionOutput_def)
  next
    case (Cons r rs)
    have "prefix s (join [CHR 0x0A] (version_line s r # map (version_line s) rs))"
      by (rule prefix_join) (rule prefix_version_line)
    with Some Cons show ?thesis by (simp add: versionOutput_def)
  qed
qed

lemma getAllVersions_failed: "exec s = Inl e \<Longrightarrow> getAllVersions exec s = []"
  by (simp add: getAllVersions_def)

lemma versionOutput_no_rows:
  "getAllVersions exec s = [] \<Longrightarrow>
     versionOutput exec m s = s @ '': No versions changed'' \<or> versionOutput exec m s = s @ '': No changes''"
  by (simp add: versionOutput_def split: option.splits)

lemma length_versionOutputs: "length (versionOutputs exec m) = 4"
  by (simp add: versionOutputs_def STAGES_def)

lemma length_STAGES: "length STAGES = 4"
  by (simp add: STAGES_def)

lemma nth_versionOutputs: "i < 4 \<Longrightarrow> versionOutputs exec m ! i = versionOutput exec m (STAGES ! i)"
  unfolding versionOutputs_def by (rule nth_map) (simp add: length_STAGES)

text \<open>
  C6. When the listing command of a stage fails, \<^verbatim>\<open>getAllVersions\<close> returns no row; the
  comment still has its four texts, the text at each position beginning with the name of the
  stage at that position of the list, and the text of the failed stage is
  \<^verbatim>\<open><STAGE>: No versions changed\<close> or \<^verbatim>\<open><STAGE>: No changes\<close>. The comment body is returned as
  soon as the ranges are: the failure of the listing does not leave \<^verbatim>\<open>generateCommentBody\<close>.
\<close>

theorem listing_failure_is_absorbed:
  assumes "exec s = Inl e"
  shows "getAllVersions exec s = []
     \<and> length (versionOutputs exec m) = 4
     \<and> (\<forall>i<4. prefix (STAGES ! i) (versionOutputs exec m ! i))
     \<and> (\<forall>i<4. STAGES ! i = s \<longrightarrow>
           versionOutputs exec m ! i = s @ '': No versions changed''
           \<or> versionOutputs exec m ! i = s @ '': No changes'')
     \<and> (getChangedStageVersions cap d = Inr m \<longrightarrow>
           generateCommentBody cap exec d
             = Inr (''Dotenv-vault Diff\<newline>'' @ join ''\<newline>'' (versionOutputs exec m)))"
proof (intro conjI allI impI)
  show none: "getAllVersions exec s = []" using assms by (rule getAllVersions_failed)
  show "length (versionOutputs exec m) = 4" by (rule length_versionOutputs)
  show "prefix (STAGES ! i) (versionOutputs exec m ! i)" if "i < 4" for i
    using that by (simp add: nth_versionOutputs prefix_versionOutput)
  show "versionOutputs exec m ! i = s @ '': No versions changed''
      \<or> versionOutputs exec m ! i = s @ '': No changes''" if "i < 4" and "STAGES ! i = s" for i
    using that versionOutput_no_rows [OF none, of m] by (simp add: nth_versionOutputs)
  show "generateCommentBody cap exec d = Inr (''Dotenv-vault Diff\<newline>'' @ join ''\<newline>'' (versionOutputs exec m))"
    if "getChangedStageVersions cap d = Inr m"
    using that by (simp add: generateCommentBody_def)
qed

theorem listing_failure_is_absorbed_witness:
  "generateCommentBody 1000000 (\<lambda>s. if s = ''DEVELOPMENT'' then Inl ExecError else Inr ''h1\<newline>h2\<newline>v2  KEY  alice today'')
      ''-DOTENV_VAULT_CI_VERSION=1\<newline>+DOTENV_VAULT_CI_VERSION=2\<newline>-DOTENV_VAULT_DEVELOPMENT_VERSION=1\<newline>+DOTENV_VAULT_DEVELOPMENT_VERSION=2''
    = Inr ''Dotenv-vault Diff\<newline>CI (2): `KEY`\<newline>DEVELOPMENT: No versions changed\<newline>STAGING: No changes\<newline>PRODUCTION: No changes''"
proof -
  let ?exec = "\<lambda>s. if s = ''DEVELOPMENT'' then Inl ExecError else Inr ''h1\<newline>h2\<newline>v2  KEY  alice today''"
  let ?d = "''-DOTENV_VAULT_CI_VERSION=1\<newline>+DOTENV_VAULT_CI_VERSION=2\<newline>-DOTENV_VAULT_DEVELOPMENT_VERSION=1\<newline>+DOTENV_VAULT_DEVELOPMENT_VERSION=2''"
  let ?m = "[\<lparr>stage = ''CI'', versions = [Fin 2]\<rparr>, \<lparr>stage = ''DEVELOPMENT'', versions = [Fin 2]\<rparr>]"
  have f: "?exec ''DEVELOPMENT'' = Inl ExecError" by simp
  have g: "getChangedStageVersions 1000000 ?d = Inr ?m" by code_simp
  have o: "versionOutputs ?exec ?m
      = [''CI (2): `KEY`'', ''DEVELOPMENT: No versions changed'', ''STAGING: No changes'',
         ''PRODUCTION: No changes'']" by code_simp
  have "generateCommentBody 1000000 ?exec ?d = Inr (''Dotenv-vault Diff\<newline>'' @ join ''\<newline>'' (versionOutputs ?exec ?m))"
    using listing_failure_is_absorbed [of ?exec "''DEVELOPMENT''" ExecError ?m 1000000 ?d] f g by blast
  then show ?thesis by (simp add: o)
qed

text \<open>
  C7, as amended. The texts are those of CI, DEVELOPMENT, STAGING and PRODUCTION, in this
  order. A stage absent from the ranges gives \<^verbatim>\<open><STAGE>: No changes\<close>; a stage whose range
  holds the version of no row gives \<^verbatim>\<open><STAGE>: No versions changed\<close>; otherwise the text is
  made of one line per row whose version is in the range, joined by line feeds, each of the
  form \<^verbatim>\<open><STAGE> (<version>): `<fields>`\<close>, the fields standing between two backquotes.
\<close>

theorem fragments_per_stage:
  "versionOutputs exec m
     = [versionOutput exec m ''CI'', versionOutput exec m ''DEVELOPMENT'',
        versionOutput exec m ''STAGING'', versionOutput exec m ''PRODUCTION'']
   \<and> (s \<notin> stage ` set m \<longrightarrow> versionOutput exec m s = s @ '': No changes'')
   \<and> (find (\<lambda>c. stage c = s) m = Some c \<longrightarrow>
        (filter (\<lambda>r. parseInt (js_string (version r)) \<in> set (versions c)) (getAllVersions exec s) = []
           \<longrightarrow> versionOutput exec m s = s @ '': No versions changed'')
      \<and> (filter (\<lambda>r. parseInt (js_string (version r)) \<in> set (versions c)) (getAllVersions exec s) \<noteq> []
           \<longrightarrow> versionOutput exec m s
               = join ''\<newline>''
                   (map (\<lambda>r. s @ '' ('' @ js_string (version r) @ ''): `'' @ fields_col r @ ''`'')
                      (filter (\<lambda>r. parseInt (js_string (version r)) \<in> set (versions c))
                         (getAllVersions exec s)))))"
proof (intro conjI impI)
  show "versionOutputs exec m
     = [versionOutput exec m ''CI'', versionOutput exec m ''DEVELOPMENT'',
        versionOutput exec m ''STAGING'', versionOutput exec m ''PRODUCTION'']"
    by (simp add: versionOutputs_def STAGES_def)
next
  assume "s \<notin> stage ` set m"
  then have "find (\<lambda>c. stage c = s) m = None" by (auto simp: find_None_iff)
  then show "versionOutput exec m s = s @ '': No changes''" by (simp add: versionOutput_def)
next
  assume "find (\<lambda>c. stage c = s) m = Some c"
    and "filter (\<lambda>r. parseInt (js_string (version r)) \<in> set (versions c)) (getAllVersions exec s) = []"
  then show "versionOutput exec m s = s @ '': No versions changed''"
    by (simp add: versionOutput_def)
next
  assume "find (\<lambda>c. stage c = s) m = Some c"
    and "filter (\<lambda>r. parseInt (js_string (version r)) \<in> set (versions c)) (getAllVersions exec s) \<noteq> []"
  then show "versionOutput exec m s
      = join ''\<newline>''
          (map (\<lambda>r. s @ '' ('' @ js_string (version r) @ ''): `'' @ fields_col r @ ''`'')
             (filter (\<lambda>r. parseInt (js_string (version r)) \<in> set (versions c))
                (getAllVersions exec s)))"
    by (simp add: versionOutput_def version_line_def [abs_def])
qed

theorem fragments_per_stage_witness:
  "''PRODUCTION'' \<notin> stage ` set [\<lparr>stage = ''CI'', versions = [Fin 7]\<rparr>]
   \<and> versionOutput (\<lambda>s. Inr ''h1\<newline>h2\<newline>v7  API_KEY  alice today'')
        [\<lparr>stage = ''CI'', versions = [Fin 7]\<rparr>] ''PRODUCTION'' = ''PRODUCTION: No changes''
   \<and> versionOutput (\<lambda>s. Inr ''h1\<newline>h2\<newline>v7  API_KEY  alice today'')
        [\<lparr>stage = ''CI'', versions = [Fin 7]\<rparr>] ''CI'' = ''CI (7): `API_KEY`''
   \<and> versionOutput (\<lambda>s. Inr ''h1\<newline>h2\<newline>v7  API_KEY  alice today'')
        [\<lparr>stage = ''CI'', versions = [Fin 8]\<rparr>] ''CI'' = ''CI: No versions changed''"
proof -
  let ?exec = "\<lambda>s::string. Inr ''h1\<newline>h2\<newline>v7  API_KEY  alice today'' :: error + string"
  let ?c7 = "\<lparr>stage = ''CI'', versions = [Fin 7]\<rparr>" and ?c8 = "\<lparr>stage = ''CI'', versions = [Fin 8]\<rparr>"
  have a: "''PRODUCTION'' \<notin> stage ` set [?c7]" by simp
  have f7: "find (\<lambda>c. stage c = ''CI'') [?c7] = Some ?c7" by simp
  have f8: "find (\<lambda>c. stage c = ''CI'') [?c8] = Some ?c8" by simp
  have k7: "filter (\<lambda>r. parseInt (js_string (version r)) \<in> set (versions ?c7)) (getAllVersions ?exec ''CI'')
      = [\<lparr>version = Some ''7'', fields_col = ''API_KEY'', user = Some ''alice'', time = ''today''\<rparr>]"
    by code_simp
  have k8: "filter (\<lambda>r. parseInt (js_string (version r)) \<in> set (versions ?c8)) (getAllVersions ?exec ''CI'')
      = []"
    by code_simp
  show ?thesis
    using fragments_per_stage [of ?exec "[?c7]" "''PRODUCTION''" ?c7]
      fragments_per_stage [of ?exec "[?c7]" "''CI''" ?c7]
      fragments_per_stage [of ?exec "[?c8]" "''CI''" ?c8] a f7 f8 k7 k8
    by (simp add: js_string_def)
qed

text \<open>
  C7 as stated fails on the form of the line of a row: the fields are written between
  backquotes, so the line is not \<^verbatim>\<open>CI (7): API_KEY\<close>.
\<close>

theorem version_line_format_counterexample:
  "versionOutput (\<lambda>s. Inr ''h1\<newline>h2\<newline>v7  API_KEY  alice today'')
       [\<lparr>stage = ''CI'', versions = [Fin 7]\<rparr>] ''CI'' = ''CI (7): `API_KEY`''
   \<and> ''CI (7): `API_KEY`'' \<noteq> ''CI (7): API_KEY''"
  by code_simp

text \<open>
  The lines of the text of a stage. No row of a listing holds a line feed (the rows come out
  of a split at the line feeds), so the text of a stage, cut at its line feeds, gives back the
  lines of its rows.
\<close>

lemma split_on_pieces: "t \<in> set (split_on c xs) \<Longrightarrow> c \<notin> set t"
proof (induction xs arbitrary: t)
  case Nil
  then show ?case by simp
next
  case (Cons x xs)
  show ?case
  proof (cases "x = c")
    case True
    with Cons show ?thesis by auto
  next
    case False
    show ?thesis
    proof (cases "split_on c xs")
      case Nil
      with Cons.prems False show ?thesis by simp
    next
      case (Cons u us)
      with Cons.prems False have "t = x # u \<or> t \<in> set us" by simp
      moreover have "c \<notin> set u" and "\<And>v. v \<in> set us \<Longrightarrow> c \<notin> set v"
        using Cons.IH Cons by simp_all
      ultimately show ?thesis using False by auto
    qed
  qed
qed

lemma split_on_whole: "c \<notin> set x \<Longrightarrow> split_on c x = [x]"
  by (induction x) auto

lemma split_on_append: "c \<notin> set x \<Longrightarrow> split_on c (x @ c # rest) = x # split_on c rest"
  by (induction x) auto

lemma split_on_join:
  "\<forall>x\<in>set (x0 # xs). c \<notin> set x \<Longrightarrow> split_on c (join [c] (x0 # xs)) = x0 # xs"
proof (induction xs arbitrary: x0)
  case Nil
  then show ?case by (simp add: split_on_whole)
next
  case (Cons y ys)
  then have "split_on c (join [c] (y # ys)) = y # ys" and "c \<notin> set x0" by simp_all
  then show ?case by (simp add: split_on_append)
qed

lemma split_spaces_pieces: "t \<in> set (split_spaces s) \<Longrightarrow> set t \<subseteq> set s"
proof (induction s arbitrary: t rule: split_spaces.induct)
  case (1 s)
  show ?case
  proof (cases "s = []")
    case True
    with "1.prems" show ?thesis by (simp add: split_spaces.simps)
  next
    case False
    show ?thesis
    proof (cases "2 \<le> length (takeWhile is_space s)")
      case True
      with "1.prems" False have "t = [] \<or> t \<in> set (split_spaces (dropWhile is_space s))"
        by (subst (asm) split_spaces.simps) auto
      then show ?thesis
        using "1.IH"(1) [OF False True] set_dropWhileD by fastforce
    next
      case short: False
      obtain x xs where s: "s = x # xs" using False by (cases s) auto
      show ?thesis
      proof (cases "split_spaces (tl s)")
        case Nil
        with "1.prems" False short have "t = [hd s]"
          by (subst (asm) split_spaces.simps) auto
        then show ?thesis using s by simp
      next
        case (Cons u us)
        with "1.prems" False short have "t = hd s # u \<or> t \<in> set us"
          by (subst (asm) split_spaces.simps) auto
        moreover have "set u \<subseteq> set (tl s)" and "\<And>v. v \<in> set us \<Longrightarrow> set v \<subseteq> set (tl s)"
          using "1.IH"(2) [OF False short] Cons by simp_all
        ultimately show ?thesis using s by auto
      qed
    qed
  qed
qed

lemma set_trim: "set (trim s) \<subseteq> set s"
  by (auto simp: trim_def dest!: set_dropWhileD)

lemma set_replace_v: "set (replace_v p) \<subseteq> set p"
  by (induction p) auto

lemma parse_line_pieces:
  assumes "c \<notin> set line"
  shows "(\<forall>v. version (parse_line line) = Some v \<longrightarrow> c \<notin> set v)
    \<and> (fields_col (parse_line line) = ''N/A'' \<or> c \<notin> set (fields_col (parse_line line)))"
proof -
  have p: "c \<notin> set t" if "t \<in> set (split_spaces (trim line))" for t
    using that assms split_spaces_pieces set_trim by blast
  have b: "c \<notin> set t" if "t \<in> set (butlast (split_spaces (trim line)))" for t
    using that p by (blast dest: in_set_butlastD)
  have tb: "c \<notin> set t" if "t \<in> set (tl (butlast (split_spaces (trim line))))" for t
    using that b [of t] by (cases "butlast (split_spaces (trim line))") simp_all
  have "c \<notin> set v" if "version (parse_line line) = Some v" for v
  proof -
    from that obtain g gs where "butlast (split_spaces (trim line)) = g # gs" and "v = replace_v g"
      by (auto simp: parse_line_def Let_def split: list.splits)
    then show ?thesis using b [of g] set_replace_v [of g] by auto
  qed
  moreover have "fields_col (parse_line line) = ''N/A'' \<or> c \<notin> set (fields_col (parse_line line))"
  proof (cases "tl (butlast (split_spaces (trim line)))")
    case Nil
    then show ?thesis by (simp add: parse_line_def Let_def)
  next
    case (Cons f fs)
    then have "fields_col (parse_line line) = f" by (simp add: parse_line_def Let_def)
    then show ?thesis using tb [of f] Cons by simp
  qed
  ultimately show ?thesis by blast
qed

lemma parse_listing_rows:
  assumes "r \<in> set (parse_listing stdout)"
  shows "\<exists>line. r = parse_line line \<and> CHR 0x0A \<notin> set line"
proof -
  from assms obtain line where "r = parse_line line" and "line \<in> set (split_on CHR 0x0A stdout)"
    by (auto simp: parse_listing_def dest: in_set_dropD)
  then show ?thesis using split_on_pieces by blast
qed

lemma version_line_one_line:
  assumes "r \<in> set (getAllVersions exec s)" and "CHR 0x0A \<notin> set s"
  shows "CHR 0x0A \<notin> set (version_line s r)"
proof -
  from assms(1) obtain stdout where in_rows: "r \<in> set (parse_listing stdout)"
    by (auto simp: getAllVersions_def split: sum.splits)
  then have t: "truthy (version r)" by (rule parse_listing_truthy)
  from in_rows obtain line where r: "r = parse_line line" and l: "CHR 0x0A \<notin> set line"
    using parse_listing_rows by blast
  from t obtain v where v: "version r = Some v" by (auto simp: truthy_iff)
  have "CHR 0x0A \<notin> set v" using parse_line_pieces [OF l] v r by blast
  moreover have "CHR 0x0A \<notin> set (fields_col r)"
    using parse_line_pieces [OF l] r by auto
  ultimately show ?thesis using assms(2) v by (simp add: version_line_def js_string_def)
qed

lemma STAGES_one_line: "s \<in> set STAGES \<Longrightarrow> CHR 0x0A \<notin> set s"
  by (auto simp: STAGES_def)

lemma output_lines:
  assumes "find (\<lambda>c. stage c = s) m = Some c" and "s \<in> set STAGES"
    and "filter (\<lambda>r. parseInt (js_string (version r)) \<in> set (versions c)) (getAllVersions exec s) \<noteq> []"
  shows "split_on CHR 0x0A (versionOutput exec m s)
     = map (version_line s)
         (filter (\<lambda>r. parseInt (js_string (version r)) \<in> set (versions c)) (getAllVersions exec s))"
proof -
  let ?kept = "filter (\<lambda>r. parseInt (js_string (version r)) \<in> set (versions c)) (getAllVersions exec s)"
  have o: "versionOutput exec m s = join [CHR 0x0A] (map (version_line s) ?kept)"
    using assms(1,3) by (simp add: versionOutput_def)
  have "\<forall>x\<in>set (map (version_line s) ?kept). CHR 0x0A \<notin> set x"
    using version_line_one_line [OF _ STAGES_one_line [OF assms(2)]] by auto
  moreover obtain l ls where "map (version_line s) ?kept = l # ls"
    using assms(3) by (cases "map (version_line s) ?kept") simp_all
  ultimately have "split_on CHR 0x0A (join [CHR 0x0A] (map (version_line s) ?kept))
      = map (version_line s) ?kept" using split_on_join [of l ls "CHR 0x0A"] by simp
  with o show ?thesis by simp
qed

text \<open>
  C8. In the text of a stage that has a range, the lines are those of the rows of the listing
  whose version, read by \<^verbatim>\<open>parseInt\<close>, is in the range: all of them, no other, one line
  each, in the order of the listing. With versions 2, 6, 1, 4, 3, 5 listed in this order and
  the range 4, 5, 6, the lines are those of 6, 4 and 5.
\<close>

theorem output_lines_are_rows_in_range:
  assumes "find (\<lambda>c. stage c = s) m = Some c" and "s \<in> set STAGES"
    and "kept = filter (\<lambda>r. parseInt (js_string (version r)) \<in> set (versions c))
                  (getAllVersions exec s)"
  shows "subseq kept (getAllVersions exec s)
     \<and> set kept = {r \<in> set (getAllVersions exec s). parseInt (js_string (version r)) \<in> set (versions c)}
     \<and> (if kept = [] then versionOutput exec m s = s @ '': No versions changed''
        else split_on CHR 0x0A (versionOutput exec m s) = map (version_line s) kept)"
proof (intro conjI)
  show "subseq kept (getAllVersions exec s)" by (simp add: assms(3))
  show "set kept = {r \<in> set (getAllVersions exec s). parseInt (js_string (version r)) \<in> set (versions c)}"
    by (simp add: assms(3))
  show "if kept = [] then versionOutput exec m s = s @ '': No versions changed''
        else split_on CHR 0x0A (versionOutput exec m s) = map (version_line s) kept"
  proof (cases "kept = []")
    case True
    then show ?thesis using assms(1,3) by (simp add: versionOutput_def)
  next
    case False
    then show ?thesis using output_lines [OF assms(1,2)] assms(3) by simp
  qed
qed

theorem output_lines_are_rows_in_range_witness:
  "getChangedStageVersions 1000000 ''-DOTENV_VAULT_CI_VERSION=3\<newline>+DOTENV_VAULT_CI_VERSION=6''
     = Inr [\<lparr>stage = ''CI'', versions = [Fin 4, Fin 5, Fin 6]\<rparr>]
   \<and> map (\<lambda>r. parseInt (js_string (version r)))
        (getAllVersions
           (\<lambda>s. Inr ''Ver  Change  By  When\<newline>---  ------  --  ----\<newline>v2  B  bob 2d ago\<newline>v6  F  fay 1h ago\<newline>v1  A  al 3d ago\<newline>v4  D  dee 1d ago\<newline>v3  C  cy 2d ago\<newline>v5  E  eve 9h ago'')
           ''CI'')
     = [Fin 2, Fin 6, Fin 1, Fin 4, Fin 3, Fin 5]
   \<and> split_on CHR 0x0A
        (versionOutput
           (\<lambda>s. Inr ''Ver  Change  By  When\<newline>---  ------  --  ----\<newline>v2  B  bob 2d ago\<newline>v6  F  fay 1h ago\<newline>v1  A  al 3d ago\<newline>v4  D  dee 1d ago\<newline>v3  C  cy 2d ago\<newline>v5  E  eve 9h ago'')
           [\<lparr>stage = ''CI'', versions = [Fin 4, Fin 5, Fin 6]\<rparr>] ''CI'')
     = [''CI (6): `F`'', ''CI (4): `D`'', ''CI (5): `E`'']"
proof -
  let ?exec = "\<lambda>s::string. Inr ''Ver  Change  By  When\<newline>---  ------  --  ----\<newline>v2  B  bob 2d ago\<newline>v6  F  fay 1h ago\<newline>v1  A  al 3d ago\<newline>v4  D  dee 1d ago\<newline>v3  C  cy 2d ago\<newline>v5  E  eve 9h ago'' :: error + string"
  let ?c = "\<lparr>stage = ''CI'', versions = [Fin 4, Fin 5, Fin 6]\<rparr>"
  let ?kept = "[\<lparr>version = Some ''6'', fields_col = ''F'', user = Some ''fay'', time = ''1h ago''\<rparr>,
      \<lparr>version = Some ''4'', fields_col = ''D'', user = Some ''dee'', time = ''1d ago''\<rparr>,
      \<lparr>version = Some ''5'', fields_col = ''E'', user = Some ''eve'', time = ''9h ago''\<rparr>]"
  have g: "getChangedStageVersions 1000000 ''-DOTENV_VAULT_CI_VERSION=3\<newline>+DOTENV_VAULT_CI_VERSION=6'' = Inr [?c]"
    by code_simp
  have v: "map (\<lambda>r. parseInt (js_string (version r))) (getAllVersions ?exec ''CI'')
      = [Fin 2, Fin 6, Fin 1, Fin 4, Fin 3, Fin 5]" by code_simp
  have f: "find (\<lambda>c. stage c = ''CI'') [?c] = Some ?c" by simp
  have s: "''CI'' \<in> set STAGES" by (simp add: STAGES_def)
  have k: "?kept = filter (\<lambda>r. parseInt (js_string (version r)) \<in> set (versions ?c))
      (getAllVersions ?exec ''CI'')" by code_simp
  have l: "map (version_line ''CI'') ?kept = [''CI (6): `F`'', ''CI (4): `D`'', ''CI (5): `E`'']"
    by code_simp
  show ?thesis
    using output_lines_are_rows_in_range [OF f s k] g v l by simp
qed

end
